theory Spec2Isabelle
  imports Complex_Main
begin

section \<open>The WCRP mixture sampler (MixtureWCRP.cpp): data model\<close>

text \<open>
  The chain is the class \<open>MixtureWCRP\<close>. A \<open>double\<close> is modelled as a real
  number (exact arithmetic, no rounding or overflow); where a computation can leave the
  finite numbers (a division by zero, the logarithm of a number that is not positive) it
  is a \<open>real option\<close>, with \<open>None\<close> for an infinity or a NaN. A \<open>size_t\<close> is a
  natural number, \<open>boost::unordered_map\<close> a partial map, \<open>std::set\<close> a set and
  \<open>std::vector\<close> a list. A failed \<open>assert\<close>, the \<open>std::out_of_range\<close> thrown by
  \<open>.at()\<close> and the \<open>std::length_error\<close> thrown by \<open>reserve\<close> are values of the
  type \<open>error\<close>.
\<close>

datatype error = AssertionFailure | OutOfRange | LengthError

record bkt_parameters =
  psi :: real
  mu :: real
  pi1 :: real
  prop0 :: real

text \<open>
  The immutable inputs of the constructor (lines 117-126). The constants \<open>UNASSIGNED\<close>
  and \<open>TOL\<close> come from \<open>common.hpp\<close>, which is not among the sources: they are
  parameters of the model. \<open>use_expert_labels\<close> is the constant member that the
  constructor sets to \<open>equals_one(beta)\<close>.
\<close>

record inputs =
  train_students :: "nat set"
  recall_sequences :: "bool list list"
  item_sequences :: "nat list list"
  provided_skill_assignments :: "nat list"
  num_students :: nat
  num_items :: nat
  num_subsamples :: nat
  use_expert_labels :: bool
  UNASSIGNED :: nat
  TOL :: real

text \<open>
  The Markov chain state and the recorded samples (MixtureWCRP.hpp, lines 106-133).
  \<open>log_gamma\<close> is \<open>None\<close> when it is \<open>log(0)\<close>, that is minus infinity (the
  constructor stores \<open>log(1.0 - beta)\<close>, and \<open>beta = 1\<close> is allowed).
\<close>

record chain =
  seating_arrangement :: "nat list"
  parameters :: "nat \<rightharpoonup> bkt_parameters"
  log_alpha_prime :: real
  log_gamma :: "real option"
  num_used_skills :: nat
  table_sizes :: "nat \<rightharpoonup> nat"
  extant_tables :: "nat set"
  trial_lookup :: "nat \<rightharpoonup> (nat \<rightharpoonup> nat list)"
  tables_ever_instantiated :: nat
  pRT_samples :: "real option list list list"
  skill_label_samples :: "nat list list"
  train_ll_samples :: "real list"

text \<open>The chain with every container empty, as the members are before the constructor body runs.\<close>

definition empty_chain :: chain where
  "empty_chain = \<lparr>seating_arrangement = [], parameters = Map.empty, log_alpha_prime = 0,
     log_gamma = Some 0, num_used_skills = 0, table_sizes = Map.empty, extant_tables = {},
     trial_lookup = Map.empty, tables_ever_instantiated = 0, pRT_samples = [],
     skill_label_samples = [], train_ll_samples = []\<rparr>"

subsection \<open>Tables precomputed by the constructor\<close>

text \<open>
  Lines 148-194. \<open>trials_studied[student][item]\<close> collects, in increasing order, the
  trials at which the student saw the item; \<open>ever_studied[student][item]\<close> is set for
  training students only; \<open>students_who_studied[item]\<close> lists, in increasing order,
  the students with \<open>ever_studied\<close>; \<open>first_encounter[student][item]\<close> is the first
  such trial, or the length of the student's sequence.
\<close>

definition num_expert_provided_skills :: "inputs \<Rightarrow> nat" where
  "num_expert_provided_skills d = 1 + Max (set (provided_skill_assignments d))"

definition trials_studied :: "inputs \<Rightarrow> nat \<Rightarrow> nat \<Rightarrow> nat list" where
  "trials_studied d student item =
     filter (\<lambda>trial. item_sequences d ! student ! trial = item)
       [0..<length (item_sequences d ! student)]"

definition ever_studied :: "inputs \<Rightarrow> nat \<Rightarrow> nat \<Rightarrow> bool" where
  "ever_studied d student item \<longleftrightarrow>
     student \<in> train_students d \<and> item \<in> set (item_sequences d ! student)"

definition students_who_studied :: "inputs \<Rightarrow> nat \<Rightarrow> nat list" where
  "students_who_studied d item =
     filter (\<lambda>student. ever_studied d student item) [0..<num_students d]"

definition first_encounter :: "inputs \<Rightarrow> nat \<Rightarrow> nat \<Rightarrow> nat" where
  "first_encounter d student item =
     foldl (\<lambda>m trial. if item_sequences d ! student ! trial = item then min trial m else m)
       (length (item_sequences d ! student)) [0..<length (item_sequences d ! student)]"

definition all_first_encounters :: "inputs \<Rightarrow> nat \<Rightarrow> nat list" where
  "all_first_encounters d item =
     map (\<lambda>student. first_encounter d student item) (students_who_studied d item)"

subsection \<open>The partition ledger\<close>

text \<open>
  \<open>std::merge\<close> of two ranges: the element of the second range is taken only when it
  is smaller than the element of the first.
\<close>

fun merge_std :: "nat list \<Rightarrow> nat list \<Rightarrow> nat list" where
  "merge_std [] ys = ys"
| "merge_std xs [] = xs"
| "merge_std (x # xs) (y # ys) =
     (if y < x then y # merge_std (x # xs) ys else x # merge_std xs (y # ys))"

text \<open>
  The inner loop of \<open>remove_item_from_table\<close> (lines 591-595). The second argument is
  the part of \<open>trials_studied[student][item]\<close> from index \<open>num_ignored\<close> on: an element
  of the lookup list is dropped when it equals the next trial still to be ignored.
\<close>

fun remove_trials :: "nat list \<Rightarrow> nat list \<Rightarrow> nat list" where
  "remove_trials [] ign = []"
| "remove_trials (x # xs) [] = x # remove_trials xs []"
| "remove_trials (x # xs) (i # ign) =
     (if x \<noteq> i then x # remove_trials xs (i # ign) else remove_trials xs ign)"

text \<open>
  \<open>size_t\<close> is taken to be 64 bits wide: decrementing 0 wraps around. The \<open>[]\<close>
  operator of a map inserts a value-initialised entry (0, or an empty container) when
  the key is missing.
\<close>

definition dec_size_t :: "nat \<Rightarrow> nat" where
  "dec_size_t n = (if n = 0 then 2 ^ 64 - 1 else n - 1)"

definition size_or_zero :: "(nat \<rightharpoonup> nat) \<Rightarrow> nat \<Rightarrow> nat" where
  "size_or_zero m k = (case m k of None \<Rightarrow> 0 | Some n \<Rightarrow> n)"

definition lookup_or_empty :: "(nat \<rightharpoonup> (nat \<rightharpoonup> nat list)) \<Rightarrow> nat \<Rightarrow> (nat \<rightharpoonup> nat list)" where
  "lookup_or_empty m k = (case m k of None \<Rightarrow> Map.empty | Some l \<Rightarrow> l)"

text \<open>
  \<open>assign_item_to_table\<close> (lines 525-561). \<open>new_params\<close> is the record that
  \<open>draw_bkt_param_prior\<close> draws from the random generator. \<open>students_who_studied.at(item)\<close>
  throws when the item is out of range. The two loops over the students who studied
  the item are \<open>seed_lookup\<close> (new table) and \<open>merge_lookup\<close> (existing table). At an
  existing table, \<open>trial_lookup[table_id]\<close> is only touched inside the loop, so that
  the map is left as it is when no training student studied the item.
\<close>

definition seed_lookup :: "inputs \<Rightarrow> nat \<Rightarrow> nat list \<Rightarrow> (nat \<rightharpoonup> nat list)" where
  "seed_lookup d item students =
     fold (\<lambda>student m. m(student \<mapsto> trials_studied d student item)) students Map.empty"

definition merge_lookup :: "inputs \<Rightarrow> nat \<Rightarrow> nat list \<Rightarrow> (nat \<rightharpoonup> nat list) \<Rightarrow> (nat \<rightharpoonup> nat list)" where
  "merge_lookup d item students m0 =
     fold (\<lambda>student m.
             case m student of
               None \<Rightarrow> m(student \<mapsto> trials_studied d student item)
             | Some l \<Rightarrow> m(student \<mapsto> merge_std l (trials_studied d student item)))
       students m0"

definition assign_item_to_table ::
  "inputs \<Rightarrow> bkt_parameters \<Rightarrow> nat \<Rightarrow> nat \<Rightarrow> bool \<Rightarrow> chain \<Rightarrow> error + chain" where
  "assign_item_to_table d new_params item table_id is_new_table c =
     (if \<not> item < num_items d then Inl OutOfRange
      else
        let c' =
          (if is_new_table then
             c\<lparr>parameters := (parameters c)(table_id \<mapsto> new_params),
               seating_arrangement := (seating_arrangement c)[item := table_id],
               table_sizes := (table_sizes c)(table_id \<mapsto> 1),
               extant_tables := insert table_id (extant_tables c),
               num_used_skills := num_used_skills c + 1,
               trial_lookup := (trial_lookup c)(table_id \<mapsto>
                  seed_lookup d item (students_who_studied d item))\<rparr>
           else
             c\<lparr>seating_arrangement := (seating_arrangement c)[item := table_id],
               table_sizes := (table_sizes c)(table_id \<mapsto> size_or_zero (table_sizes c) table_id + 1),
               trial_lookup :=
                 (if students_who_studied d item = [] then trial_lookup c
                  else (trial_lookup c)(table_id \<mapsto>
                         merge_lookup d item (students_who_studied d item)
                           (lookup_or_empty (trial_lookup c) table_id)))\<rparr>)
        in if num_used_skills c' = card (dom (table_sizes c')) then Inr c'
           else Inl AssertionFailure)"

text \<open>
  \<open>remove_item_from_table\<close> (lines 565-602), returning the flag "the table was
  deleted too" with the new state. One round of the loop over the students who studied
  the item is \<open>remove_student_trials\<close>: \<open>final_size\<close> is a \<open>size_t\<close> difference, so it
  is 0 exactly when the two sizes are equal, and it wraps to a huge value, which
  \<open>reserve\<close> rejects, when the lookup list is the shorter one. As in
  \<open>assign_item_to_table\<close>, \<open>trial_lookup[table_id]\<close> is only touched inside the loop.
\<close>

definition remove_student_trials ::
  "inputs \<Rightarrow> nat \<Rightarrow> nat \<Rightarrow> error + (nat \<rightharpoonup> nat list) \<Rightarrow> error + (nat \<rightharpoonup> nat list)" where
  "remove_student_trials d item student r =
     (case r of
        Inl e \<Rightarrow> Inl e
      | Inr m \<Rightarrow>
          let l = (case m student of None \<Rightarrow> [] | Some l \<Rightarrow> l);
              ign = trials_studied d student item
          in if length l = length ign then Inr (m(student := None))
             else if length l < length ign then Inl LengthError
             else let tmp = remove_trials l ign
                  in if length tmp = length l - length ign then Inr (m(student \<mapsto> tmp))
                     else Inl AssertionFailure)"

definition remove_item_from_table ::
  "inputs \<Rightarrow> nat \<Rightarrow> nat \<Rightarrow> chain \<Rightarrow> error + (bool \<times> chain)" where
  "remove_item_from_table d item table_id c =
     (let n = dec_size_t (size_or_zero (table_sizes c) table_id);
          seating = (seating_arrangement c)[item := UNASSIGNED d]
      in if n = 0 then
           Inr (True,
             c\<lparr>seating_arrangement := seating,
               table_sizes := (table_sizes c)(table_id := None),
               parameters := (parameters c)(table_id := None),
               extant_tables := extant_tables c - {table_id},
               num_used_skills := dec_size_t (num_used_skills c),
               trial_lookup := (trial_lookup c)(table_id := None)\<rparr>)
         else if \<not> item < num_items d then Inl OutOfRange
         else
           case fold (remove_student_trials d item) (students_who_studied d item)
                  (Inr (lookup_or_empty (trial_lookup c) table_id)) of
             Inl e \<Rightarrow> Inl e
           | Inr m \<Rightarrow>
               Inr (False,
                 c\<lparr>seating_arrangement := seating,
                   table_sizes := (table_sizes c)(table_id \<mapsto> n),
                   trial_lookup :=
                     (if students_who_studied d item = [] then trial_lookup c
                      else (trial_lookup c)(table_id \<mapsto> m))\<rparr>))"

text \<open>
  The state in which the constructor starts to seat the items (line 202): the maps are
  empty, every item is \<open>UNASSIGNED\<close>, and \<open>pRT_samples\<close> has an empty sample list
  for every trial of every student (lines 173-175).
\<close>

definition init_chain :: "inputs \<Rightarrow> chain" where
  "init_chain d = empty_chain\<lparr>seating_arrangement := replicate (num_items d) (UNASSIGNED d),
     tables_ever_instantiated := UNASSIGNED d + 1,
     pRT_samples := map (\<lambda>student. replicate (length (recall_sequences d ! student)) [])
                      [0..<num_students d]\<rparr>"

text \<open>
  The constructor asserts that every item of every sequence is below \<open>num_items\<close>
  (line 164).
\<close>

definition wf_inputs :: "inputs \<Rightarrow> bool" where
  "wf_inputs d \<longleftrightarrow>
     (\<forall>student<num_students d. \<forall>item\<in>set (item_sequences d ! student). item < num_items d)"

text \<open>
  The ledger is only called by the constructor and by \<open>gibbs_resample_skill\<close>. The
  reachable chain states are those obtained from the initial state by calls as these
  two make them:
  \<^item> an unassigned item sits down at a new table, whose id is not in use (lines 206,
    236, 250 and 449: the id is \<open>1 + label\<close> of a label not yet encountered, or the
    counter \<open>tables_ever_instantiated++\<close>);
  \<^item> an unassigned item sits down at an extant table (lines 206, 249, 418 and 455);
  \<^item> an item leaves the table at which it sits (lines 232, 246, 398 and 422);
  \<^item> the parameters of an extant table are overwritten (lines 241 and 451, and the
    slice sampler), or the hyperparameters, the id counter or the recorded samples
    change.
\<close>

inductive reachable :: "inputs \<Rightarrow> chain \<Rightarrow> bool" for d :: inputs where
  reach_init: "reachable d (init_chain d)"
| reach_assign_new:
    "reachable d c \<Longrightarrow> item < num_items d \<Longrightarrow> seating_arrangement c ! item = UNASSIGNED d \<Longrightarrow>
     table_id \<notin> extant_tables c \<Longrightarrow> table_id \<noteq> UNASSIGNED d \<Longrightarrow>
     assign_item_to_table d prm item table_id True c = Inr c' \<Longrightarrow> reachable d c'"
| reach_assign_old:
    "reachable d c \<Longrightarrow> item < num_items d \<Longrightarrow> seating_arrangement c ! item = UNASSIGNED d \<Longrightarrow>
     table_id \<in> extant_tables c \<Longrightarrow>
     assign_item_to_table d prm item table_id False c = Inr c' \<Longrightarrow> reachable d c'"
| reach_remove:
    "reachable d c \<Longrightarrow> item < num_items d \<Longrightarrow> seating_arrangement c ! item = table_id \<Longrightarrow>
     table_id \<noteq> UNASSIGNED d \<Longrightarrow>
     remove_item_from_table d item table_id c = Inr (deleted, c') \<Longrightarrow> reachable d c'"
| reach_params:
    "reachable d c \<Longrightarrow> table_id \<in> extant_tables c \<Longrightarrow>
     reachable d (c\<lparr>parameters := (parameters c)(table_id \<mapsto> prm)\<rparr>)"
| reach_other:
    "reachable d c \<Longrightarrow>
     reachable d (c\<lparr>log_alpha_prime := a, log_gamma := g, tables_ever_instantiated := n,
        pRT_samples := ps, skill_label_samples := ls, train_ll_samples := ts\<rparr>)"

text \<open>
  What the ledger is meant to hold, as a function of the seating arrangement: the
  trials of a student on the items seated at a table, in increasing order, and the
  entry of the table's lookup map for the student, present for training students with
  at least one such trial.
\<close>

definition trials_at :: "inputs \<Rightarrow> nat list \<Rightarrow> nat \<Rightarrow> nat \<Rightarrow> nat list" where
  "trials_at d seating table_id student =
     filter (\<lambda>trial. seating ! (item_sequences d ! student ! trial) = table_id)
       [0..<length (item_sequences d ! student)]"

definition lookup_of :: "inputs \<Rightarrow> nat list \<Rightarrow> nat \<Rightarrow> (nat \<rightharpoonup> nat list)" where
  "lookup_of d seating table_id =
     (\<lambda>student. if student < num_students d \<and> student \<in> train_students d \<and>
                    trials_at d seating table_id student \<noteq> []
                 then Some (trials_at d seating table_id student) else None)"

definition ledger_inv :: "inputs \<Rightarrow> chain \<Rightarrow> bool" where
  "ledger_inv d c \<longleftrightarrow>
     length (seating_arrangement c) = num_items d \<and>
     finite (extant_tables c) \<and>
     UNASSIGNED d \<notin> extant_tables c \<and>
     set (seating_arrangement c) \<subseteq> insert (UNASSIGNED d) (extant_tables c) \<and>
     dom (table_sizes c) = extant_tables c \<and>
     dom (parameters c) = extant_tables c \<and>
     num_used_skills c = card (extant_tables c) \<and>
     (\<forall>t\<in>extant_tables c.
        table_sizes c t = Some (count_list (seating_arrangement c) t) \<and>
        0 < count_list (seating_arrangement c) t) \<and>
     trial_lookup c =
       (\<lambda>t. if t \<in> extant_tables c then Some (lookup_of d (seating_arrangement c) t) else None)"

subsection \<open>Sample queries\<close>

text \<open>
  Sums and quotients of doubles: a non-finite operand gives a non-finite result, and so
  does a division by zero.
\<close>

definition d_add :: "real option \<Rightarrow> real option \<Rightarrow> real option" where
  "d_add a b = (case a of None \<Rightarrow> None | Some x \<Rightarrow> (case b of None \<Rightarrow> None | Some y \<Rightarrow> Some (x + y)))"

definition fdiv :: "real \<Rightarrow> real \<Rightarrow> real option" where
  "fdiv a b = (if b = 0 then None else Some (a / b))"

text \<open>
  \<open>vector_sum\<close> and \<open>vector_mean\<close> (lines 33-41). \<open>std::accumulate\<close> adds from the
  left, starting at 0.0; \<open>vector_mean\<close> asserts that the vector is not empty.
\<close>

definition vector_sum :: "real option list \<Rightarrow> real option" where
  "vector_sum vec = (if vec = [] then Some 0 else foldl d_add (Some 0) vec)"

definition vector_mean :: "real option list \<Rightarrow> error + real option" where
  "vector_mean vec =
     (if vec = [] then Inl AssertionFailure
      else Inr (case vector_sum vec of None \<Rightarrow> None | Some x \<Rightarrow> fdiv x (real (length vec))))"

text \<open>
  \<open>get_estimated_recall_prob\<close> (lines 263-266): \<open>.at()\<close> checks both indices, the
  assertion rejects a trial without samples.
\<close>

definition get_estimated_recall_prob :: "chain \<Rightarrow> nat \<Rightarrow> nat \<Rightarrow> error + real option" where
  "get_estimated_recall_prob c student trial =
     (if \<not> student < length (pRT_samples c) then Inl OutOfRange
      else if \<not> trial < length (pRT_samples c ! student) then Inl OutOfRange
      else if pRT_samples c ! student ! trial = [] then Inl AssertionFailure
      else vector_mean (pRT_samples c ! student ! trial))"

text \<open>
  \<open>get_most_likely_skill_labels\<close> (lines 279-294). \<open>best_step\<close> is the loop body for one
  value of \<open>sample\<close>, on the pair \<open>(best_ll, best_sample)\<close>; the loop runs \<open>sample\<close>
  over \<open>0 ..< train_ll_samples.size()\<close>, starting from \<open>(0, 0)\<close>. The method is
  \<open>const\<close>: it returns a vector and no new chain state.
\<close>

definition best_step :: "real list \<Rightarrow> real \<times> nat \<Rightarrow> nat \<Rightarrow> real \<times> nat" where
  "best_step train_ll b sample =
     (if sample = 0 \<or> train_ll ! sample > fst b then (train_ll ! sample, sample) else b)"

definition best_loop :: "real list \<Rightarrow> nat \<Rightarrow> real \<times> nat" where
  "best_loop train_ll n = foldl (best_step train_ll) (0, 0) [0..<n]"

definition get_most_likely_skill_labels :: "chain \<Rightarrow> error + nat list" where
  "get_most_likely_skill_labels c =
     (if skill_label_samples c = [] then Inl AssertionFailure
      else if length (train_ll_samples c) \<noteq> length (skill_label_samples c)
      then Inl AssertionFailure
      else let best_sample = snd (best_loop (train_ll_samples c) (length (train_ll_samples c)))
           in if best_sample < length (skill_label_samples c)
              then Inr (skill_label_samples c ! best_sample) else Inl OutOfRange)"

subsection \<open>The seating-probability model\<close>

text \<open>
  \<open>gamma = exp(log_gamma)\<close>, which is 0 for \<open>log_gamma\<close> minus infinity. A difference
  of two \<open>size_t\<close> wraps around.
\<close>

definition gamma_of :: "chain \<Rightarrow> real" where
  "gamma_of c = (case log_gamma c of None \<Rightarrow> 0 | Some l \<Rightarrow> exp l)"

definition sub_size_t :: "nat \<Rightarrow> nat \<Rightarrow> nat" where
  "sub_size_t a b = (if b \<le> a then a - b else a + 2 ^ 64 - b)"

text \<open>
  The counting loop of \<open>compute_K\<close> (lines 94-102), for one \<open>other_item\<close>. The map
  \<open>counts\<close> is kept as the list of its entries; \<open>seating_arrangement.at(other_item)\<close>
  is only evaluated when \<open>item != other_item\<close>.
\<close>

definition count_step ::
  "inputs \<Rightarrow> chain \<Rightarrow> nat \<Rightarrow> nat \<Rightarrow> error + ((nat \<times> int) list \<times> int) \<Rightarrow> nat \<Rightarrow>
   error + ((nat \<times> int) list \<times> int)" where
  "count_step d c item table_id r other_item =
     (case r of
        Inl e \<Rightarrow> Inl e
      | Inr (counts, max_count) \<Rightarrow>
          if item = other_item then Inr (counts, max_count)
          else if \<not> other_item < length (seating_arrangement c) then Inl OutOfRange
          else if seating_arrangement c ! other_item \<noteq> table_id then Inr (counts, max_count)
          else if \<not> other_item < length (provided_skill_assignments d) then Inl OutOfRange
          else
            let expert_label = provided_skill_assignments d ! other_item;
                counts' = (case map_of counts expert_label of
                             None \<Rightarrow> counts @ [(expert_label, 1)]
                           | Some k \<Rightarrow>
                               map (\<lambda>(l, n). if l = expert_label then (l, n + 1) else (l, n)) counts);
                n = (case map_of counts' expert_label of None \<Rightarrow> 0 | Some k \<Rightarrow> k)
            in Inr (counts', if n > max_count then n else max_count))"

text \<open>
  \<open>compute_K\<close> (lines 83-109). \<open>pow\<close> with an \<open>int\<close> exponent is \<open>powi\<close>; the
  denominator starts with the term for the labels that do not occur at the table and
  adds one term per entry of \<open>counts\<close>; the quotient is not finite when the
  denominator is 0. The doubles of the source are exact reals here, and its \<open>int\<close>
  counts are unbounded integers (a count is at most the number of items). What is
  proved of \<open>compute_K\<close> is therefore proved in exact arithmetic: in double arithmetic
  a power of \<open>gamma\<close> can underflow to 0 and a sum \<open>1 + x\<close> with a tiny \<open>x\<close> rounds to
  1, also for a positive \<open>gamma\<close> (at \<open>log_gamma = -8\<close>, the lower bound of its slice
  sampler, with some ninety items at a table, respectively five).
\<close>

definition compute_K :: "inputs \<Rightarrow> chain \<Rightarrow> nat \<Rightarrow> nat \<Rightarrow> bool \<Rightarrow> error + real option" where
  "compute_K d c item table_id generative_mode =
     (if \<not> generative_mode \<and> \<not> item < length (seating_arrangement c) then Inl OutOfRange
      else if \<not> generative_mode \<and> seating_arrangement c ! item \<noteq> UNASSIGNED d
      then Inl AssertionFailure
      else if \<not> item < length (provided_skill_assignments d) then Inl OutOfRange
      else
        let gamma = gamma_of c;
            end_idx = (if generative_mode then item else num_items d);
            item_expert_label = provided_skill_assignments d ! item
        in case foldl (count_step d c item table_id) (Inr ([], 0)) [0..<end_idx] of
             Inl e \<Rightarrow> Inl e
           | Inr (counts, max_count) \<Rightarrow>
               let numerator_K = (case map_of counts item_expert_label of
                                    Some k \<Rightarrow> gamma powi (max_count - k)
                                  | None \<Rightarrow> gamma powi max_count);
                   denominator_K =
                     foldl (\<lambda>acc (l, k). acc + gamma powi (max_count - k))
                       (real (sub_size_t (num_expert_provided_skills d) (length counts))
                          * gamma powi max_count)
                       counts
               in Inr (fdiv numerator_K denominator_K))"

text \<open>
  What the counting loop of \<open>compute_K\<close> maintains: the labels counted are distinct
  expert labels, every count is at least 1 and at most \<open>max_count\<close>, and \<open>max_count\<close>
  is one of the counts, or 0 when nothing has been counted.
\<close>

definition count_inv :: "inputs \<Rightarrow> (nat \<times> int) list \<Rightarrow> int \<Rightarrow> bool" where
  "count_inv d counts max_count \<longleftrightarrow>
     distinct (map fst counts) \<and>
     set (map fst counts) \<subseteq> set (provided_skill_assignments d) \<and>
     (\<forall>(l, k)\<in>set counts. 1 \<le> k \<and> k \<le> max_count) \<and> 0 \<le> max_count \<and>
     (if counts = [] then max_count = 0 else max_count \<in> snd ` set counts)"

subsection \<open>Knowledge tracing\<close>

text \<open>
  The prediction and the belief update of the two-state model, as every function of
  the source that replays trials writes them (lines 497-500, 632-637, 690-695, 735-736
  and 828-837): \<open>skill_pi0 = skill_pi1 * prop0\<close>, the probability of a correct
  response is \<open>skill_pi0 * (1 - p) + skill_pi1 * p\<close>.
\<close>

definition pRT :: "bkt_parameters \<Rightarrow> real \<Rightarrow> real" where
  "pRT prm cur_p_hat =
     (let skill_pi1 = pi1 prm; skill_pi0 = skill_pi1 * prop0 prm
      in skill_pi0 * (1 - cur_p_hat) + skill_pi1 * cur_p_hat)"

definition update_p_hat :: "bkt_parameters \<Rightarrow> bool \<Rightarrow> real \<Rightarrow> real option" where
  "update_p_hat prm did_recall cur_p_hat =
     (let skill_pi1 = pi1 prm; skill_pi0 = skill_pi1 * prop0 prm; skill_mu = mu prm
      in if did_recall
         then fdiv (skill_pi1 * cur_p_hat + skill_mu * skill_pi0 * (1 - cur_p_hat))
                (skill_pi1 * cur_p_hat + skill_pi0 * (1 - cur_p_hat))
         else fdiv ((1 - skill_pi1) * cur_p_hat + skill_mu * (1 - skill_pi0) * (1 - cur_p_hat))
                ((1 - skill_pi1) * cur_p_hat + (1 - skill_pi0) * (1 - cur_p_hat)))"

text \<open>The map from every table with parameters to its \<open>psi\<close> (lines 484, 720 and 814).\<close>

definition init_p_hat :: "chain \<Rightarrow> (nat \<rightharpoonup> real option)" where
  "init_p_hat c = (\<lambda>table_id. map_option (\<lambda>prm. Some (psi prm)) (parameters c table_id))"

subsection \<open>The likelihood engine\<close>

text \<open>
  The logarithm of a double: \<open>log\<close> of 0 is minus infinity and \<open>log\<close> of a negative
  number is a NaN. The contribution of one trial to \<open>student_skill_log_lik\<close> is not
  finite when the belief is not.
\<close>

definition flog :: "real \<Rightarrow> real option" where
  "flog x = (if 0 < x then Some (ln x) else None)"

definition trial_log_lik :: "bkt_parameters \<Rightarrow> bool \<Rightarrow> real option \<Rightarrow> real option" where
  "trial_log_lik prm did_recall cur_p_hat =
     (case cur_p_hat of
        None \<Rightarrow> None
      | Some p \<Rightarrow> if did_recall then flog (pRT prm p) else flog (1 - pRT prm p))"

text \<open>
  \<open>item_and_recall_sequences[student]\<close> (lines 160-166): one pair per trial of the
  student's item sequence.
\<close>

definition item_and_recall_sequences :: "inputs \<Rightarrow> nat \<Rightarrow> (nat \<times> bool) list" where
  "item_and_recall_sequences d student =
     zip (item_sequences d ! student) (recall_sequences d ! student)"

text \<open>
  The end of the loop over the students, in both versions of \<open>skill_log_likelihood\<close>
  (lines 641-643 and 700-702): the assertion that the student's log-likelihood is
  finite, the clamp of a positive value to 0, and the accumulation.
\<close>

definition add_student :: "real \<Rightarrow> error + real option \<Rightarrow> error + real" where
  "add_student skill_log_lik r =
     (case r of
        Inl e \<Rightarrow> Inl e
      | Inr None \<Rightarrow> Inl AssertionFailure
      | Inr (Some student_skill_log_lik) \<Rightarrow>
          Inr (skill_log_lik + (if student_skill_log_lik > 0 then 0 else student_skill_log_lik)))"

text \<open>
  \<open>skill_log_likelihood\<close> from scratch (lines 607-650). \<open>scratch_trial\<close> is the body
  of the loop over the trials of the skill, on the pair of \<open>student_skill_log_lik\<close> and
  \<open>cur_p_hat\<close>; \<open>student_log_lik\<close> is the value of \<open>student_skill_log_lik\<close> when the
  loop ends.
\<close>

definition scratch_trial ::
  "bkt_parameters \<Rightarrow> (nat \<times> bool) list \<Rightarrow> nat \<Rightarrow> error + (real option \<times> real option) \<Rightarrow> nat \<Rightarrow>
   error + (real option \<times> real option)" where
  "scratch_trial prm recall_items start_trial r trial_idx =
     (case r of
        Inl e \<Rightarrow> Inl e
      | Inr (ll, cur_p_hat) \<Rightarrow>
          if \<not> trial_idx < length recall_items then Inl OutOfRange
          else
            let did_recall = snd (recall_items ! trial_idx)
            in Inr (if trial_idx \<ge> start_trial
                    then d_add ll (trial_log_lik prm did_recall cur_p_hat) else ll,
                    Option.bind cur_p_hat (update_p_hat prm did_recall)))"

definition student_log_lik ::
  "inputs \<Rightarrow> chain \<Rightarrow> nat \<Rightarrow> bkt_parameters \<Rightarrow> nat \<Rightarrow> nat \<Rightarrow> error + real option" where
  "student_log_lik d c table_id prm student start_trial =
     (if \<not> student < num_students d then Inl OutOfRange
      else
        case trial_lookup c table_id of
          None \<Rightarrow> Inl OutOfRange
        | Some m \<Rightarrow>
            (case m student of
               None \<Rightarrow> Inl OutOfRange
             | Some trials \<Rightarrow>
                 (case foldl (scratch_trial prm (item_and_recall_sequences d student) start_trial)
                         (Inr (Some 0, Some (psi prm))) trials of
                    Inl e \<Rightarrow> Inl e
                  | Inr (ll, cur_p_hat) \<Rightarrow> Inr ll)))"

definition scratch_student ::
  "inputs \<Rightarrow> chain \<Rightarrow> nat \<Rightarrow> bkt_parameters \<Rightarrow> nat list \<Rightarrow> nat list \<Rightarrow> error + real \<Rightarrow> nat \<Rightarrow>
   error + real" where
  "scratch_student d c table_id prm affected_students first_exposures r k =
     (case r of
        Inl e \<Rightarrow> Inl e
      | Inr skill_log_lik \<Rightarrow>
          if \<not> k < length first_exposures then Inl OutOfRange
          else add_student skill_log_lik
                 (student_log_lik d c table_id prm (affected_students ! k) (first_exposures ! k)))"

definition skill_log_likelihood ::
  "inputs \<Rightarrow> chain \<Rightarrow> nat \<Rightarrow> nat list \<Rightarrow> nat list \<Rightarrow> error + real" where
  "skill_log_likelihood d c table_id affected_students first_exposures =
     (case parameters c table_id of
        None \<Rightarrow> Inl OutOfRange
      | Some prm \<Rightarrow>
          (case foldl (scratch_student d c table_id prm affected_students first_exposures) (Inr 0)
                  [0..<length affected_students] of
             Inl e \<Rightarrow> Inl e
           | Inr skill_log_lik \<Rightarrow>
               if skill_log_lik \<le> TOL d then Inr (min 0 skill_log_lik)
               else Inl AssertionFailure))"

text \<open>
  \<open>skill_log_likelihood\<close> from cached beliefs (lines 656-708): a table that does not
  exist gives 0, a student without an entry in the table's lookup map is skipped, and
  only the trials from \<open>start_trial\<close> on are visited.
\<close>

definition cached_trial ::
  "bkt_parameters \<Rightarrow> (nat \<times> bool) list \<Rightarrow> nat \<Rightarrow> error + (real option \<times> real option) \<Rightarrow> nat \<Rightarrow>
   error + (real option \<times> real option)" where
  "cached_trial prm recall_items start_trial r trial_idx =
     (case r of
        Inl e \<Rightarrow> Inl e
      | Inr (ll, cur_p_hat) \<Rightarrow>
          if trial_idx \<ge> start_trial then
            if \<not> trial_idx < length recall_items then Inl OutOfRange
            else
              let did_recall = snd (recall_items ! trial_idx)
              in Inr (d_add ll (trial_log_lik prm did_recall cur_p_hat),
                      Option.bind cur_p_hat (update_p_hat prm did_recall))
          else Inr (ll, cur_p_hat))"

definition student_log_lik_cached ::
  "inputs \<Rightarrow> bkt_parameters \<Rightarrow> nat \<Rightarrow> nat \<Rightarrow> real option \<Rightarrow> nat list \<Rightarrow> error + real option" where
  "student_log_lik_cached d prm student start_trial p0 trials =
     (case foldl (cached_trial prm (item_and_recall_sequences d student) start_trial)
             (Inr (Some 0, p0)) trials of
        Inl e \<Rightarrow> Inl e
      | Inr (ll, cur_p_hat) \<Rightarrow> Inr ll)"

definition cached_student ::
  "inputs \<Rightarrow> chain \<Rightarrow> nat \<Rightarrow> bkt_parameters \<Rightarrow> nat list \<Rightarrow> nat list \<Rightarrow> (nat \<rightharpoonup> real option) list \<Rightarrow>
   error + real \<Rightarrow> nat \<Rightarrow> error + real" where
  "cached_student d c table_id prm affected_students first_exposures init_p_hats r student_idx =
     (case r of
        Inl e \<Rightarrow> Inl e
      | Inr skill_log_lik \<Rightarrow>
          case trial_lookup c table_id of
            None \<Rightarrow> Inl OutOfRange
          | Some m \<Rightarrow>
              (case m (affected_students ! student_idx) of
                 None \<Rightarrow> Inr skill_log_lik
               | Some trials \<Rightarrow>
                   if \<not> student_idx < length first_exposures then Inl OutOfRange
                   else if \<not> affected_students ! student_idx < num_students d then Inl OutOfRange
                   else if \<not> student_idx < length init_p_hats then Inl OutOfRange
                   else
                     case (init_p_hats ! student_idx) table_id of
                       None \<Rightarrow> Inl OutOfRange
                     | Some p0 \<Rightarrow>
                         add_student skill_log_lik
                           (student_log_lik_cached d prm (affected_students ! student_idx)
                              (first_exposures ! student_idx) p0 trials)))"

definition skill_log_likelihood_cached ::
  "inputs \<Rightarrow> chain \<Rightarrow> nat \<Rightarrow> nat list \<Rightarrow> nat list \<Rightarrow> (nat \<rightharpoonup> real option) list \<Rightarrow> error + real" where
  "skill_log_likelihood_cached d c table_id affected_students first_exposures init_p_hats =
     (if table_sizes c table_id = None \<or> table_sizes c table_id = Some 0 then Inr 0
      else
        case parameters c table_id of
          None \<Rightarrow> Inl OutOfRange
        | Some prm \<Rightarrow>
            (case foldl (cached_student d c table_id prm affected_students first_exposures
                           init_p_hats) (Inr 0) [0..<length affected_students] of
               Inl e \<Rightarrow> Inl e
             | Inr skill_log_lik \<Rightarrow>
                 if skill_log_lik \<le> 0 then Inr skill_log_lik else Inl AssertionFailure))"

text \<open>
  \<open>cache_p_hat\<close> (lines 713-738): the beliefs of one student, per table, right before
  the trial \<open>end_trial\<close>.
\<close>

definition cache_step ::
  "inputs \<Rightarrow> chain \<Rightarrow> nat \<Rightarrow> error + (nat \<rightharpoonup> real option) \<Rightarrow> nat \<Rightarrow> error + (nat \<rightharpoonup> real option)" where
  "cache_step d c student r trial =
     (case r of
        Inl e \<Rightarrow> Inl e
      | Inr p_hat \<Rightarrow>
          if \<not> trial < length (recall_sequences d ! student) then Inl OutOfRange
          else if \<not> trial < length (item_sequences d ! student) then Inl OutOfRange
          else if \<not> item_sequences d ! student ! trial < length (seating_arrangement c)
          then Inl OutOfRange
          else
            let did_recall = recall_sequences d ! student ! trial;
                table_id = seating_arrangement c ! (item_sequences d ! student ! trial)
            in case parameters c table_id of
                 None \<Rightarrow> Inl OutOfRange
               | Some skill_params \<Rightarrow>
                   (case p_hat table_id of
                      None \<Rightarrow> Inl OutOfRange
                    | Some cur_p_hat \<Rightarrow>
                        Inr (p_hat(table_id \<mapsto>
                               Option.bind cur_p_hat (update_p_hat skill_params did_recall)))))"

definition cache_p_hat :: "inputs \<Rightarrow> chain \<Rightarrow> nat \<Rightarrow> nat \<Rightarrow> error + (nat \<rightharpoonup> real option)" where
  "cache_p_hat d c student end_trial =
     (if \<not> student < length (recall_sequences d) \<or> \<not> student < length (item_sequences d)
      then Inl OutOfRange
      else foldl (cache_step d c student) (Inr (init_p_hat c)) [0..<end_trial])"

text \<open>
  For the comparison of the two versions: the belief after the given trials, each
  updating it as \<open>update_p_hat\<close> does.
\<close>

definition belief :: "bkt_parameters \<Rightarrow> (nat \<Rightarrow> bool) \<Rightarrow> nat list \<Rightarrow> real option \<Rightarrow> real option" where
  "belief prm recall trials p0 =
     foldl (\<lambda>p trial. Option.bind p (update_p_hat prm (recall trial))) p0 trials"

subsection \<open>The sample recorder\<close>

text \<open>
  The relabelling loop of \<open>record_sample\<close> (lines 466-472). \<open>skill_labels\<close> is kept as
  the list of its entries in the order of insertion, so that its size is the length
  of the list. In \<open>skill_labels[table_id] = skill_labels.size()\<close> the right-hand
  side is evaluated before the entry is inserted (the order that C++17 fixes for an
  assignment).
\<close>

definition relabel_step ::
  "nat list \<Rightarrow> error + ((nat \<times> nat) list \<times> nat list) \<Rightarrow> nat \<Rightarrow> error + ((nat \<times> nat) list \<times> nat list)" where
  "relabel_step seating r item =
     (case r of
        Inl e \<Rightarrow> Inl e
      | Inr (skill_labels, cur_assignments) \<Rightarrow>
          if \<not> item < length seating then Inl OutOfRange
          else
            let table_id = seating ! item;
                skill_labels' = (case map_of skill_labels table_id of
                                   None \<Rightarrow> skill_labels @ [(table_id, length skill_labels)]
                                 | Some l \<Rightarrow> skill_labels)
            in case map_of skill_labels' table_id of
                 None \<Rightarrow> Inl OutOfRange
               | Some l \<Rightarrow> Inr (skill_labels', cur_assignments[item := l]))"

definition relabel :: "nat \<Rightarrow> nat list \<Rightarrow> error + nat list" where
  "relabel n seating =
     (case foldl (relabel_step seating) (Inr ([], replicate n 0)) [0..<n] of
        Inl e \<Rightarrow> Inl e
      | Inr (skill_labels, cur_assignments) \<Rightarrow> Inr cur_assignments)"

text \<open>
  The prediction loop of \<open>record_sample\<close> (lines 476-502) for one student: the state
  is the student's row of \<open>pRT_samples\<close> with the map \<open>p_hat\<close>.
\<close>

definition predict_step ::
  "inputs \<Rightarrow> chain \<Rightarrow> nat \<Rightarrow> error + (real option list list \<times> (nat \<rightharpoonup> real option)) \<Rightarrow> nat \<Rightarrow>
   error + (real option list list \<times> (nat \<rightharpoonup> real option))" where
  "predict_step d c student r trial =
     (case r of
        Inl e \<Rightarrow> Inl e
      | Inr (row, p_hat) \<Rightarrow>
          if \<not> trial < length (item_sequences d ! student) then Inl OutOfRange
          else if \<not> item_sequences d ! student ! trial < length (seating_arrangement c)
          then Inl OutOfRange
          else
            let did_recall = recall_sequences d ! student ! trial;
                table_id = seating_arrangement c ! (item_sequences d ! student ! trial)
            in case parameters c table_id of
                 None \<Rightarrow> Inl OutOfRange
               | Some skill_params \<Rightarrow>
                   (case p_hat table_id of
                      None \<Rightarrow> Inl OutOfRange
                    | Some cur_p_hat \<Rightarrow>
                        Inr (row[trial := row ! trial @ [map_option (pRT skill_params) cur_p_hat]],
                             p_hat(table_id \<mapsto>
                               Option.bind cur_p_hat (update_p_hat skill_params did_recall)))))"

definition predict_student ::
  "inputs \<Rightarrow> chain \<Rightarrow> error + real option list list list \<Rightarrow> nat \<Rightarrow> error + real option list list list" where
  "predict_student d c r student =
     (case r of
        Inl e \<Rightarrow> Inl e
      | Inr samples \<Rightarrow>
          if \<not> student < length (recall_sequences d) \<or> \<not> student < length (item_sequences d)
          then Inl OutOfRange
          else
            case foldl (predict_step d c student) (Inr (samples ! student, init_p_hat c))
                   [0..<length (recall_sequences d ! student)] of
              Inl e \<Rightarrow> Inl e
            | Inr (row, p_hat) \<Rightarrow> Inr (samples[student := row]))"

definition record_sample :: "inputs \<Rightarrow> real \<Rightarrow> chain \<Rightarrow> error + chain" where
  "record_sample d train_ll c =
     (case relabel (num_items d) (seating_arrangement c) of
        Inl e \<Rightarrow> Inl e
      | Inr cur_assignments \<Rightarrow>
          (case foldl (predict_student d c) (Inr (pRT_samples c)) [0..<num_students d] of
             Inl e \<Rightarrow> Inl e
           | Inr samples \<Rightarrow>
               Inr (c\<lparr>train_ll_samples := train_ll_samples c @ [train_ll],
                      skill_label_samples := skill_label_samples c @ [cur_assignments],
                      pRT_samples := samples\<rparr>)))"

text \<open>
  The value that line 497 pushes for a trial, written without the loop over the
  trials: the prediction \<open>pRT\<close> of the trial's skill at the belief that the student's
  earlier trials on the items of that skill leave, starting at the skill's \<open>psi\<close>
  (lines 484 and 499-500; \<open>belief\<close> replays the updates).
\<close>

definition predicted_recall :: "inputs \<Rightarrow> chain \<Rightarrow> nat \<Rightarrow> nat \<Rightarrow> real option" where
  "predicted_recall d c student trial =
     (let table_id = seating_arrangement c ! (item_sequences d ! student ! trial)
      in case parameters c table_id of
           None \<Rightarrow> None
         | Some skill_params \<Rightarrow>
             map_option (pRT skill_params)
               (belief skill_params (\<lambda>tr. recall_sequences d ! student ! tr)
                  (filter (\<lambda>tr. seating_arrangement c ! (item_sequences d ! student ! tr) = table_id)
                     [0..<trial])
                  (Some (psi skill_params))))"

text \<open>
  Predicates for the proofs about the recorder: what the relabelling loop has
  established after \<open>m\<close> of \<open>n\<close> items, and the shape the constructor gives
  \<open>pRT_samples\<close> (one sample list per trial of every student, lines 173-175).
\<close>

definition relabel_inv :: "nat list \<Rightarrow> nat \<Rightarrow> nat \<Rightarrow> (nat \<times> nat) list \<Rightarrow> nat list \<Rightarrow> bool" where
  "relabel_inv seating n m skill_labels cur \<longleftrightarrow>
     distinct (map fst skill_labels) \<and>
     map snd skill_labels = [0..<length skill_labels] \<and>
     set (map fst skill_labels) = set (take m seating) \<and>
     length cur = n \<and>
     (\<forall>i<m. map_of skill_labels (seating ! i) = Some (cur ! i))"

definition samples_shape :: "inputs \<Rightarrow> real option list list list \<Rightarrow> bool" where
  "samples_shape d samples \<longleftrightarrow>
     length samples = num_students d \<and>
     (\<forall>s<num_students d. length (samples ! s) = length (recall_sequences d ! s))"

text \<open>
  What the prediction loop of \<open>record_sample\<close> needs in order to return: every
  \<open>.at()\<close> of lines 479-480 and 488-494 is in range. Each of the first
  \<open>num_students\<close> students has its two sequences, the item sequence being at least
  as long as the recall sequence, and every item of a trial is seated at a table that
  has parameters.
\<close>

definition can_predict :: "inputs \<Rightarrow> chain \<Rightarrow> bool" where
  "can_predict d c \<longleftrightarrow>
     num_students d \<le> length (recall_sequences d) \<and>
     num_students d \<le> length (item_sequences d) \<and>
     (\<forall>s<num_students d. \<forall>t<length (recall_sequences d ! s).
        t < length (item_sequences d ! s) \<and>
        item_sequences d ! s ! t < length (seating_arrangement c) \<and>
        parameters c (seating_arrangement c ! (item_sequences d ! s ! t)) \<noteq> None)"

subsection \<open>The Gibbs step and the constructor's seating\<close>

text \<open>
  \<open>gibbs_resample_skill\<close> (lines 391-457). The random generator is outside the model:
  \<open>drawn_event\<close> is the index that \<open>sampleUnnormalizedDiscrete\<close> returns and
  \<open>new_params\<close> the record that \<open>draw_bkt_param_prior\<close> draws for a new table;
  \<open>prior_samples\<close> is the pool of auxiliary draws. The log-probabilities only feed
  the draw, so they are computed for their failures alone. \<open>gibbs_try_table\<close> is the
  body of the loop over the extant tables, which \<open>std::set\<close> visits in increasing
  order. The vectors of log-probabilities have one entry per extant table and
  \<open>num_subsamples\<close> further ones, so that the three assertions compare the number of
  extant tables with \<open>num_used_skills\<close>; \<open>singleton_skill_data_lp\<close> is empty when
  expert labels are used directly.
\<close>

definition cache_all ::
  "inputs \<Rightarrow> chain \<Rightarrow> nat list \<Rightarrow> nat list \<Rightarrow> error + (nat \<rightharpoonup> real option) list" where
  "cache_all d c affected_students first_exposures =
     foldl (\<lambda>r student_idx.
              case r of
                Inl e \<Rightarrow> Inl e
              | Inr p_hat \<Rightarrow>
                  if \<not> student_idx < length first_exposures then Inl OutOfRange
                  else (case cache_p_hat d c (affected_students ! student_idx)
                               (first_exposures ! student_idx) of
                          Inl e \<Rightarrow> Inl e
                        | Inr p \<Rightarrow> Inr (p_hat @ [p])))
       (Inr []) [0..<length affected_students]"

definition gibbs_try_table ::
  "inputs \<Rightarrow> bkt_parameters \<Rightarrow> nat \<Rightarrow> nat list \<Rightarrow> nat list \<Rightarrow> (nat \<rightharpoonup> real option) list \<Rightarrow>
   error + chain \<Rightarrow> nat \<Rightarrow> error + chain" where
  "gibbs_try_table d new_params item affected_students first_exposures p_hat r table_id =
     (case r of
        Inl e \<Rightarrow> Inl e
      | Inr c \<Rightarrow>
          (case assign_item_to_table d new_params item table_id False c of
             Inl e \<Rightarrow> Inl e
           | Inr c_with \<Rightarrow>
               (case skill_log_likelihood_cached d c_with table_id affected_students
                       first_exposures p_hat of
                  Inl e \<Rightarrow> Inl e
                | Inr lp_with \<Rightarrow>
                    (case remove_item_from_table d item table_id c_with of
                       Inl e \<Rightarrow> Inl e
                     | Inr (deleted, c_without) \<Rightarrow>
                         (case skill_log_likelihood_cached d c_without table_id affected_students
                                 first_exposures p_hat of
                            Inl e \<Rightarrow> Inl e
                          | Inr lp_without \<Rightarrow>
                              (case compute_K d c_without item table_id False of
                                 Inl e \<Rightarrow> Inl e
                               | Inr K \<Rightarrow>
                                   if table_sizes c_without table_id = None then Inl OutOfRange
                                   else Inr c_without))))))"

definition gibbs_resample_skill ::
  "inputs \<Rightarrow> bkt_parameters \<Rightarrow> bkt_parameters list \<Rightarrow> nat \<Rightarrow> nat \<Rightarrow> chain \<Rightarrow> error + chain" where
  "gibbs_resample_skill d new_params prior_samples drawn_event item c =
     (if \<not> item < length (seating_arrangement c) \<or> \<not> item < num_items d then Inl OutOfRange
      else
        let cur_table_id = seating_arrangement c ! item;
            affected_students = students_who_studied d item;
            first_exposures = all_first_encounters d item
        in case remove_item_from_table d item cur_table_id c of
             Inl e \<Rightarrow> Inl e
           | Inr (deleted, c1) \<Rightarrow>
               (case cache_all d c1 affected_students first_exposures of
                  Inl e \<Rightarrow> Inl e
                | Inr p_hat \<Rightarrow>
                    let keys = sorted_list_of_set (extant_tables c1)
                    in case foldl (gibbs_try_table d new_params item affected_students
                                     first_exposures p_hat) (Inr c1) keys of
                         Inl e \<Rightarrow> Inl e
                       | Inr c2 \<Rightarrow>
                           if use_expert_labels d then Inl OutOfRange
                           else if length keys \<noteq> num_used_skills c2 then Inl AssertionFailure
                           else if drawn_event \<ge> length keys then
                             (case assign_item_to_table d new_params item
                                     (tables_ever_instantiated c2) True c2 of
                                Inl e \<Rightarrow> Inl e
                              | Inr c3 \<Rightarrow>
                                  if \<not> drawn_event - length keys < length prior_samples
                                  then Inl OutOfRange
                                  else Inr (c3\<lparr>tables_ever_instantiated :=
                                                  tables_ever_instantiated c2 + 1,
                                                parameters := (parameters c3)
                                                  (seating_arrangement c3 ! item \<mapsto>
                                                   prior_samples ! (drawn_event - length keys))\<rparr>))
                           else assign_item_to_table d new_params item (keys ! drawn_event)
                                  False c2))"

text \<open>
  The seating loop of the constructor (lines 202-209): item by item, at the table
  \<open>1 + label\<close>, new when the table has not been encountered; then the id counter
  moves past the tables. \<open>draws item\<close> is the parameter record drawn for the item
  if it opens its table.
\<close>

definition seat_step ::
  "inputs \<Rightarrow> (nat \<Rightarrow> bkt_parameters) \<Rightarrow> error + (nat set \<times> chain) \<Rightarrow> nat \<Rightarrow> error + (nat set \<times> chain)" where
  "seat_step d draws r item =
     (case r of
        Inl e \<Rightarrow> Inl e
      | Inr (skills_encountered, c) \<Rightarrow>
          if \<not> item < length (provided_skill_assignments d) then Inl OutOfRange
          else
            let table_id = 1 + provided_skill_assignments d ! item
            in case assign_item_to_table d (draws item) item table_id
                      (table_id \<notin> skills_encountered) c of
                 Inl e \<Rightarrow> Inl e
               | Inr c' \<Rightarrow> Inr (insert table_id skills_encountered, c'))"

definition initial_seating :: "inputs \<Rightarrow> (nat \<Rightarrow> bkt_parameters) \<Rightarrow> error + chain" where
  "initial_seating d draws =
     (case foldl (seat_step d draws) (Inr ({}, init_chain d)) [0..<num_items d] of
        Inl e \<Rightarrow> Inl e
      | Inr (skills_encountered, c) \<Rightarrow>
          Inr (c\<lparr>tables_ever_instantiated :=
                   tables_ever_instantiated c + (num_expert_provided_skills d + 1)\<rparr>))"

text \<open>
  The id counter is fresh when it lies above \<open>UNASSIGNED\<close> and above every extant
  table.
\<close>

definition fresh_counter :: "inputs \<Rightarrow> chain \<Rightarrow> bool" where
  "fresh_counter d c \<longleftrightarrow>
     UNASSIGNED d < tables_ever_instantiated c \<and>
     (\<forall>t\<in>extant_tables c. t < tables_ever_instantiated c)"

subsection \<open>The MCMC driver\<close>

text \<open>
  \<open>run_mcmc\<close> (lines 298-386) as the sequence of sampler calls it makes. The slice
  samplers, the Gibbs step and the likelihoods draw from the random generator and
  loop without a bound, so an iteration is described by its calls, in order: the keys
  of \<open>parameters\<close> in the order of iteration (\<open>tables\<close>) and \<open>all_items\<close> as the
  generator shuffles it (\<open>shuffled\<close>) are given for every iteration.
\<close>

datatype mcmc_call =
  Log_seating_prob
  | Slice_log_alpha_prime
  | Slice_log_gamma
  | Slice_bkt_parameters nat
  | Shuffle_all_items
  | Gibbs_resample_skill nat
  | Full_data_log_likelihood
  | Record_sample

definition run_mcmc_iteration ::
  "inputs \<Rightarrow> bool \<Rightarrow> bool \<Rightarrow> nat list \<Rightarrow> nat list \<Rightarrow> nat \<Rightarrow> nat \<Rightarrow> mcmc_call list" where
  "run_mcmc_iteration d infer_gamma infer_alpha_prime tables shuffled iter burn =
     [Log_seating_prob] @
     (if \<not> use_expert_labels d \<and> infer_alpha_prime then [Slice_log_alpha_prime] else []) @
     (if infer_gamma then [Slice_log_gamma] else []) @
     map Slice_bkt_parameters tables @
     (if \<not> use_expert_labels d then Shuffle_all_items # map Gibbs_resample_skill shuffled
      else []) @
     [Full_data_log_likelihood] @
     (if iter \<ge> burn then [Record_sample] else [])"

definition run_mcmc ::
  "inputs \<Rightarrow> nat \<Rightarrow> nat \<Rightarrow> bool \<Rightarrow> bool \<Rightarrow> (nat \<Rightarrow> nat list) \<Rightarrow> (nat \<Rightarrow> nat list) \<Rightarrow>
   mcmc_call list" where
  "run_mcmc d num_iterations burn infer_gamma infer_alpha_prime tables shuffled =
     concat (map (\<lambda>iter. run_mcmc_iteration d infer_gamma infer_alpha_prime
                            (tables iter) (shuffled iter) iter burn)
               [0..<num_iterations])"

subsection \<open>A small data set\<close>

text \<open>
  One training student with the trials (item 0, correct), (item 1, incorrect), (item 0,
  correct); both items carry the expert label 0. \<open>example_chain1\<close> is the chain after
  item 0 has opened table 1, \<open>example_chain2\<close> after item 1 has joined it, and
  \<open>example_chain3\<close> after item 0 has left it again.
\<close>

definition example_inputs :: inputs where
  "example_inputs = \<lparr>train_students = {0}, recall_sequences = [[True, False, True]],
     item_sequences = [[0, 1, 0]], provided_skill_assignments = [0, 0], num_students = 1,
     num_items = 2, num_subsamples = 1, use_expert_labels = False, UNASSIGNED = 0,
     TOL = 1 / 1000000\<rparr>"

definition example_params :: bkt_parameters where
  "example_params = \<lparr>psi = 1 / 2, mu = 1 / 2, pi1 = 1 / 2, prop0 = 1 / 2\<rparr>"

definition example_chain1 :: chain where
  "example_chain1 = (init_chain example_inputs)\<lparr>
     parameters := [1 \<mapsto> example_params],
     seating_arrangement := [1, 0],
     table_sizes := [1 \<mapsto> 1],
     extant_tables := {1},
     num_used_skills := 1,
     trial_lookup := [1 \<mapsto> [0 \<mapsto> [0, 2]]]\<rparr>"

definition example_chain2 :: chain where
  "example_chain2 = example_chain1\<lparr>
     seating_arrangement := [1, 1],
     table_sizes := [1 \<mapsto> 2],
     trial_lookup := [1 \<mapsto> [0 \<mapsto> [0, 1, 2]]]\<rparr>"

definition example_chain3 :: chain where
  "example_chain3 = example_chain2\<lparr>
     seating_arrangement := [0, 1],
     table_sizes := [1 \<mapsto> 1],
     trial_lookup := [1 \<mapsto> [0 \<mapsto> [1]]]\<rparr>"

text \<open>
  Three items with the expert labels 0, 0 and 1. In \<open>example_chain4\<close> item 0 is
  unassigned, item 1 sits at table 1 and item 2 at table 2, with \<open>beta = 0\<close>
  (\<open>log_gamma = log 1\<close>). \<open>example_chain5\<close> is the seating by expert labels with
  \<open>beta = 1\<close> (\<open>log_gamma = log 0\<close>).
\<close>

definition example_inputs3 :: inputs where
  "example_inputs3 = \<lparr>train_students = {0}, recall_sequences = [[True, False, True]],
     item_sequences = [[0, 1, 2]], provided_skill_assignments = [0, 0, 1], num_students = 1,
     num_items = 3, num_subsamples = 1, use_expert_labels = False, UNASSIGNED = 0,
     TOL = 1 / 1000000\<rparr>"

definition example_chain4 :: chain where
  "example_chain4 = empty_chain\<lparr>seating_arrangement := [0, 1, 2], log_gamma := Some 0\<rparr>"

definition example_chain5 :: chain where
  "example_chain5 = empty_chain\<lparr>seating_arrangement := [1, 1, 2], log_gamma := None\<rparr>"

text \<open>
  \<open>example_chain6\<close> is \<open>example_chain2\<close> with \<open>pi1 = prop0 = 1\<close> at table 1, where an
  incorrect response has probability 0. \<open>example_inputs4\<close> has two training students,
  one trial each, on items 0 and 1; in \<open>example_chain7\<close> item 1 has opened table 2 and
  item 0 is unassigned, as inside a Gibbs step for item 0.
\<close>

definition example_chain6 :: chain where
  "example_chain6 = example_chain2\<lparr>parameters := [1 \<mapsto> \<lparr>psi = 1 / 2, mu = 1 / 2, pi1 = 1, prop0 = 1\<rparr>]\<rparr>"

text \<open>
  \<open>example_chain9\<close> is \<open>example_chain1\<close> with \<open>pi1 = 2\<close> and \<open>prop0 = 1\<close> at table 1:
  every correct response is predicted with the value 2, so that the log-likelihood of
  the student is positive. With parameters that are probabilities the exact value is
  never positive; the clamp of the source absorbs what rounding adds.
\<close>

definition example_chain9 :: chain where
  "example_chain9 = example_chain1\<lparr>parameters := [1 \<mapsto> \<lparr>psi = 1 / 2, mu = 1 / 2, pi1 = 2, prop0 = 1\<rparr>]\<rparr>"

text \<open>
  \<open>example_chain10\<close> is \<open>example_chain2\<close> after one earlier sample, with the predictions
  1/8, 1/24 and 1/104 for the three trials of student 0.
\<close>

definition example_chain10 :: chain where
  "example_chain10 = example_chain2\<lparr>pRT_samples := [[[Some (1 / 8)], [Some (1 / 24)], [Some (1 / 104)]]]\<rparr>"

text \<open>
  \<open>example_chain8\<close> seats the three items of \<open>example_inputs3\<close> at the tables 5, 2
  and 5.
\<close>

definition example_chain8 :: chain where
  "example_chain8 = (init_chain example_inputs3)\<lparr>
     seating_arrangement := [5, 2, 5],
     parameters := [5 \<mapsto> example_params, 2 \<mapsto> example_params]\<rparr>"

definition example_inputs4 :: inputs where
  "example_inputs4 = \<lparr>train_students = {0, 1}, recall_sequences = [[True], [False]],
     item_sequences = [[0], [1]], provided_skill_assignments = [0, 1], num_students = 2,
     num_items = 2, num_subsamples = 1, use_expert_labels = False, UNASSIGNED = 0,
     TOL = 1 / 1000000\<rparr>"

definition example_chain7 :: chain where
  "example_chain7 = (init_chain example_inputs4)\<lparr>
     parameters := [2 \<mapsto> example_params],
     seating_arrangement := [0, 2],
     table_sizes := [2 \<mapsto> 1],
     extant_tables := {2},
     num_used_skills := 1,
     trial_lookup := [2 \<mapsto> [1 \<mapsto> [0]]]\<rparr>"

section \<open>Theorems\<close>

subsection \<open>Lists of trials: merging and removing\<close>

lemma strict_sorted_unique:
  "sorted_wrt (<) xs \<Longrightarrow> sorted_wrt (<) ys \<Longrightarrow> set xs = set ys \<Longrightarrow> xs = (ys::nat list)"
  by (simp add: strict_sorted_iff sorted_distinct_set_unique)

lemma set_merge_std: "set (merge_std xs ys) = set xs \<union> set ys"
  by (induction xs ys rule: merge_std.induct) auto

lemma strict_sorted_merge_std:
  "sorted_wrt (<) xs \<Longrightarrow> sorted_wrt (<) ys \<Longrightarrow> set xs \<inter> set ys = {} \<Longrightarrow>
   sorted_wrt (<) (merge_std xs ys)"
proof (induction xs ys rule: merge_std.induct)
  case (3 x xs y ys)
  from "3.prems" have ne: "x \<noteq> y" by auto
  show ?case
  proof (cases "y < x")
    case True
    with 3 have "sorted_wrt (<) (merge_std (x # xs) ys)" by auto
    moreover from True "3.prems" have "\<forall>z\<in>set (merge_std (x # xs) ys). y < z"
      by (auto simp: set_merge_std)
    ultimately show ?thesis using True by simp
  next
    case False
    with ne have lt: "x < y" by simp
    with False 3 have "sorted_wrt (<) (merge_std xs (y # ys))" by auto
    moreover from lt "3.prems" have "\<forall>z\<in>set (merge_std xs (y # ys)). x < z"
      by (auto simp: set_merge_std)
    ultimately show ?thesis using False by simp
  qed
qed simp_all

lemma remove_trials_Nil: "remove_trials xs [] = xs"
  by (induction xs) simp_all

lemma remove_trials_filter:
  "sorted_wrt (<) xs \<Longrightarrow> sorted_wrt (<) ign \<Longrightarrow> set ign \<subseteq> set xs \<Longrightarrow>
   remove_trials xs ign = filter (\<lambda>x. x \<notin> set ign) xs"
proof (induction xs ign rule: remove_trials.induct)
  case (1 ign)
  then show ?case by simp
next
  case (2 x xs)
  then show ?case by (simp add: remove_trials_Nil)
next
  case (3 x xs i ign)
  show ?case
  proof (cases "x = i")
    case True
    from "3.prems" True have sub: "set ign \<subseteq> set xs" by auto
    from "3.prems" True have "i \<notin> set xs" by auto
    then have "filter (\<lambda>x. x \<notin> set (i # ign)) xs = filter (\<lambda>x. x \<notin> set ign) xs"
      by (intro filter_cong) auto
    with 3 True sub show ?thesis by simp
  next
    case False
    with "3.prems" have "i \<in> set xs" by auto
    with "3.prems" have lt: "x < i" by auto
    from "3.prems" have "\<forall>z\<in>set ign. i < z" by simp
    with lt have notin: "x \<notin> set (i # ign)" by force
    with "3.prems" have sub: "set (i # ign) \<subseteq> set xs" by auto
    from 3 False sub have "remove_trials xs (i # ign) = filter (\<lambda>x. x \<notin> set (i # ign)) xs"
      by simp
    with False notin show ?thesis by simp
  qed
qed

lemma strict_sorted_filter_upt: "sorted_wrt (<) (filter P [0..<n])"
  by (rule sorted_wrt_filter) (simp add: sorted_wrt_upt)

lemma length_remove_filter:
  assumes "sorted_wrt (<) xs" "sorted_wrt (<) ign" "set ign \<subseteq> set xs"
  shows "length (filter (\<lambda>x. x \<notin> set ign) xs) = length xs - length (ign::nat list)"
proof -
  have "sorted_wrt (<) (filter (\<lambda>x. x \<in> set ign) xs)"
    using assms(1) by (rule sorted_wrt_filter)
  moreover have "set (filter (\<lambda>x. x \<in> set ign) xs) = set ign" using assms(3) by auto
  ultimately have "filter (\<lambda>x. x \<in> set ign) xs = ign"
    using assms(2) by (intro strict_sorted_unique)
  then have "length (filter (\<lambda>x. x \<in> set ign) xs) = length ign" by simp
  moreover have "length (filter (\<lambda>x. x \<in> set ign) xs) + length (filter (\<lambda>x. \<not> x \<in> set ign) xs) = length xs"
    by (rule sum_length_filter_compl)
  ultimately show ?thesis by simp
qed

lemma count_list_update:
  assumes "i < length xs"
  shows "count_list (xs[i := v]) t + (if t = xs ! i then 1 else 0)
           = count_list xs t + (if t = v then 1 else 0)"
proof -
  have "count_list (take i xs @ v # drop (Suc i) xs) t + (if t = xs ! i then 1 else 0)
      = count_list (take i xs @ xs ! i # drop (Suc i) xs) t + (if t = v then 1 else 0)"
    by simp
  with assms show ?thesis
    by (simp add: upd_conv_take_nth_drop [symmetric] del: count_list.simps)
qed

lemma strict_sorted_trials_studied: "sorted_wrt (<) (trials_studied d s item)"
  unfolding trials_studied_def by (rule strict_sorted_filter_upt)

lemma strict_sorted_trials_at: "sorted_wrt (<) (trials_at d seating t s)"
  unfolding trials_at_def by (rule strict_sorted_filter_upt)

lemma set_trials_studied:
  "set (trials_studied d s item) =
     {tr. tr < length (item_sequences d ! s) \<and> item_sequences d ! s ! tr = item}"
  by (auto simp: trials_studied_def)

lemma set_trials_at:
  "set (trials_at d seating t s) =
     {tr. tr < length (item_sequences d ! s) \<and> seating ! (item_sequences d ! s ! tr) = t}"
  by (auto simp: trials_at_def)

lemma trials_studied_empty_iff:
  "trials_studied d s item = [] \<longleftrightarrow> item \<notin> set (item_sequences d ! s)"
proof -
  have "trials_studied d s item = [] \<longleftrightarrow> set (trials_studied d s item) = {}" by simp
  also have "\<dots> \<longleftrightarrow> item \<notin> set (item_sequences d ! s)"
    unfolding set_trials_studied by (auto simp: in_set_conv_nth)
  finally show ?thesis .
qed

lemma set_students_who_studied:
  "s \<in> set (students_who_studied d item) \<longleftrightarrow>
     s < num_students d \<and> s \<in> train_students d \<and> item \<in> set (item_sequences d ! s)"
  by (auto simp: students_who_studied_def ever_studied_def)

lemma distinct_students_who_studied: "distinct (students_who_studied d item)"
  by (simp add: students_who_studied_def)

lemma seq_item_in_range:
  "wf_inputs d \<Longrightarrow> s < num_students d \<Longrightarrow> tr < length (item_sequences d ! s) \<Longrightarrow>
   item_sequences d ! s ! tr < num_items d"
  by (simp add: wf_inputs_def)

lemma upd_eq_iff_other:
  "j < length xs \<Longrightarrow> xs ! i \<noteq> t' \<Longrightarrow> t \<noteq> t' \<Longrightarrow> (xs[i := t] ! j = t') = (xs ! j = t')"
  by (cases "i = j") simp_all

lemma upd_eq_iff_same:
  "j < length xs \<Longrightarrow> (xs[i := t] ! j = t) = (xs ! j = t \<or> j = i)"
  by (cases "i = j") auto

lemma upd_eq_iff_removed:
  "j < length xs \<Longrightarrow> xs ! i = t \<Longrightarrow> u \<noteq> t \<Longrightarrow> (xs[i := u] ! j = t) = (xs ! j = t \<and> j \<noteq> i)"
  by (cases "i = j") auto

lemma trials_at_update_other:
  assumes "wf_inputs d" "length seating = num_items d" "s < num_students d"
    and "seating ! item \<noteq> t'" "t \<noteq> t'"
  shows "trials_at d (seating[item := t]) t' s = trials_at d seating t' s"
  unfolding trials_at_def
proof (rule filter_cong [OF refl])
  fix tr assume "tr \<in> set [0..<length (item_sequences d ! s)]"
  then have "item_sequences d ! s ! tr < length seating"
    using seq_item_in_range [OF assms(1,3)] assms(2) by simp
  then show "(seating[item := t] ! (item_sequences d ! s ! tr) = t') =
             (seating ! (item_sequences d ! s ! tr) = t')"
    using assms(4,5) by (rule upd_eq_iff_other)
qed

lemma set_trials_at_update_same:
  assumes "wf_inputs d" "length seating = num_items d" "s < num_students d"
  shows "set (trials_at d (seating[item := t]) t s) =
         set (trials_at d seating t s) \<union> set (trials_studied d s item)"
proof -
  have "seating[item := t] ! (item_sequences d ! s ! tr) = t \<longleftrightarrow>
        seating ! (item_sequences d ! s ! tr) = t \<or> item_sequences d ! s ! tr = item"
    if "tr < length (item_sequences d ! s)" for tr
  proof -
    have "item_sequences d ! s ! tr < length seating"
      using seq_item_in_range [OF assms(1,3) that] assms(2) by simp
    then show ?thesis by (rule upd_eq_iff_same)
  qed
  then show ?thesis unfolding set_trials_at set_trials_studied by auto
qed

lemma trials_at_assign:
  assumes "wf_inputs d" "length seating = num_items d" "s < num_students d"
    and "item < num_items d" "seating ! item \<noteq> t"
  shows "trials_at d (seating[item := t]) t s =
         merge_std (trials_at d seating t s) (trials_studied d s item)"
proof (rule strict_sorted_unique)
  show "sorted_wrt (<) (trials_at d (seating[item := t]) t s)" by (rule strict_sorted_trials_at)
  have disj: "set (trials_at d seating t s) \<inter> set (trials_studied d s item) = {}"
    unfolding set_trials_at set_trials_studied using assms(5) by auto
  show "sorted_wrt (<) (merge_std (trials_at d seating t s) (trials_studied d s item))"
    by (rule strict_sorted_merge_std [OF strict_sorted_trials_at strict_sorted_trials_studied disj])
  show "set (trials_at d (seating[item := t]) t s) =
        set (merge_std (trials_at d seating t s) (trials_studied d s item))"
    by (simp add: set_merge_std set_trials_at_update_same [OF assms(1-3)])
qed

lemma trials_at_remove:
  assumes "wf_inputs d" "length seating = num_items d" "s < num_students d"
    and "item < num_items d" "seating ! item = t" "u \<noteq> t"
  shows "trials_at d (seating[item := u]) t s =
         remove_trials (trials_at d seating t s) (trials_studied d s item)"
    and "set (trials_studied d s item) \<subseteq> set (trials_at d seating t s)"
proof -
  show sub: "set (trials_studied d s item) \<subseteq> set (trials_at d seating t s)"
    unfolding set_trials_at set_trials_studied using assms(5) by auto
  have "trials_at d (seating[item := u]) t s =
        filter (\<lambda>x. x \<notin> set (trials_studied d s item)) (trials_at d seating t s)"
  proof (rule strict_sorted_unique)
    show "sorted_wrt (<) (trials_at d (seating[item := u]) t s)" by (rule strict_sorted_trials_at)
    show "sorted_wrt (<) (filter (\<lambda>x. x \<notin> set (trials_studied d s item)) (trials_at d seating t s))"
      by (rule sorted_wrt_filter [OF strict_sorted_trials_at])
    have "seating[item := u] ! (item_sequences d ! s ! tr) = t \<longleftrightarrow>
        seating ! (item_sequences d ! s ! tr) = t \<and> item_sequences d ! s ! tr \<noteq> item"
      if "tr < length (item_sequences d ! s)" for tr
    proof -
      have "item_sequences d ! s ! tr < length seating"
        using seq_item_in_range [OF assms(1,3) that] assms(2) by simp
      then show ?thesis using assms(5,6) by (rule upd_eq_iff_removed)
    qed
    then show "set (trials_at d (seating[item := u]) t s) =
        set (filter (\<lambda>x. x \<notin> set (trials_studied d s item)) (trials_at d seating t s))"
      unfolding set_filter set_trials_at set_trials_studied by auto
  qed
  also have "\<dots> = remove_trials (trials_at d seating t s) (trials_studied d s item)"
    by (rule remove_trials_filter [symmetric, OF strict_sorted_trials_at strict_sorted_trials_studied sub])
  finally show "trials_at d (seating[item := u]) t s =
         remove_trials (trials_at d seating t s) (trials_studied d s item)" .
qed

lemma seed_lookup_apply:
  "seed_lookup d item students s =
     (if s \<in> set students then Some (trials_studied d s item) else None)"
proof -
  have "fold (\<lambda>student m. m(student \<mapsto> trials_studied d student item)) students m0 s =
     (if s \<in> set students then Some (trials_studied d s item) else m0 s)" for m0
    by (induction students arbitrary: m0) auto
  then show ?thesis by (simp add: seed_lookup_def)
qed

lemma merge_lookup_apply:
  "distinct students \<Longrightarrow>
   merge_lookup d item students m0 s =
     (if s \<in> set students
      then (case m0 s of None \<Rightarrow> Some (trials_studied d s item)
            | Some l \<Rightarrow> Some (merge_std l (trials_studied d s item)))
      else m0 s)"
  unfolding merge_lookup_def
proof (induction students arbitrary: m0)
  case Nil
  then show ?case by simp
next
  case (Cons x xs)
  then have d: "distinct xs" "x \<notin> set xs" by auto
  show ?case
    using Cons.IH [OF d(1)] d(2) by (auto split: option.splits)
qed

lemma length_ign_le:
  assumes "sorted_wrt (<) xs" "sorted_wrt (<) ign" "set ign \<subseteq> set xs"
  shows "length (ign::nat list) \<le> length xs"
proof -
  from assms(1,2) have "distinct ign" "distinct xs" by (simp_all add: strict_sorted_iff)
  then have "length ign = card (set ign)" "length xs = card (set xs)"
    by (simp_all add: distinct_card)
  with assms(3) show ?thesis by (simp add: card_mono)
qed

lemma remove_student_trials_step:
  assumes "m s = Some l" "sorted_wrt (<) l" "set (trials_studied d s item) \<subseteq> set l"
  shows "remove_student_trials d item s (Inr m) =
           Inr (m(s := if remove_trials l (trials_studied d s item) = [] then None
                       else Some (remove_trials l (trials_studied d s item))))"
proof -
  let ?ign = "trials_studied d s item"
  note ss = strict_sorted_trials_studied [of d s item]
  have rt: "remove_trials l ?ign = filter (\<lambda>x. x \<notin> set ?ign) l"
    by (rule remove_trials_filter [OF assms(2) ss assms(3)])
  have len: "length (remove_trials l ?ign) = length l - length ?ign"
    unfolding rt by (rule length_remove_filter [OF assms(2) ss assms(3)])
  have le: "length ?ign \<le> length l"
    by (rule length_ign_le [OF assms(2) ss assms(3)])
  show ?thesis
  proof (cases "length l = length ?ign")
    case True
    with len have "remove_trials l ?ign = []" by simp
    with True assms(1) show ?thesis
      by (simp add: remove_student_trials_def)
  next
    case False
    with le have lt: "length ?ign < length l" by simp
    with len have "remove_trials l ?ign \<noteq> []" by auto
    with False lt len assms(1) show ?thesis
      by (simp add: remove_student_trials_def Let_def)
  qed
qed

lemma remove_fold:
  assumes "distinct students"
    and "\<forall>s\<in>set students. \<exists>l. m0 s = Some l \<and> sorted_wrt (<) l \<and>
            set (trials_studied d s item) \<subseteq> set l"
  shows "\<exists>m. fold (remove_student_trials d item) students (Inr m0) = Inr m \<and>
           (\<forall>s. m s = (if s \<in> set students
                        then (if remove_trials (the (m0 s)) (trials_studied d s item) = [] then None
                              else Some (remove_trials (the (m0 s)) (trials_studied d s item)))
                        else m0 s))"
  using assms
proof (induction students arbitrary: m0)
  case Nil
  then show ?case by simp
next
  case (Cons x xs)
  from Cons.prems obtain l where l: "m0 x = Some l" "sorted_wrt (<) l"
    "set (trials_studied d x item) \<subseteq> set l" by auto
  let ?m1 = "m0(x := if remove_trials l (trials_studied d x item) = [] then None
                       else Some (remove_trials l (trials_studied d x item)))"
  have step: "remove_student_trials d item x (Inr m0) = Inr ?m1"
    by (rule remove_student_trials_step [where m = m0 and s = x, OF l])
  from Cons.prems have dx: "distinct xs" "x \<notin> set xs" by auto
  have "\<forall>s\<in>set xs. \<exists>l. ?m1 s = Some l \<and> sorted_wrt (<) l \<and>
            set (trials_studied d s item) \<subseteq> set l"
    using Cons.prems(2) dx(2) by auto
  from Cons.IH [OF dx(1) this] obtain m where
    m: "fold (remove_student_trials d item) xs (Inr ?m1) = Inr m"
      "\<forall>s. m s = (if s \<in> set xs
                        then (if remove_trials (the (?m1 s)) (trials_studied d s item) = [] then None
                              else Some (remove_trials (the (?m1 s)) (trials_studied d s item)))
                        else ?m1 s)"
    by blast
  have "fold (remove_student_trials d item) (x # xs) (Inr m0) = Inr m"
    using step m(1) by simp
  moreover have "m s = (if s \<in> set (x # xs)
                        then (if remove_trials (the (m0 s)) (trials_studied d s item) = [] then None
                              else Some (remove_trials (the (m0 s)) (trials_studied d s item)))
                        else m0 s)" for s
    using m(2) [rule_format, of s] dx(2) l(1) by (cases "s = x") auto
  ultimately show ?case by blast
qed

lemma lookup_of_cong:
  "(\<And>s. s < num_students d \<Longrightarrow> trials_at d sa t s = trials_at d sb t s) \<Longrightarrow>
   lookup_of d sa t = lookup_of d sb t"
  by (rule ext) (auto simp: lookup_of_def)

lemma trials_at_empty:
  assumes "wf_inputs d" "length seating = num_items d" "s < num_students d" "t \<notin> set seating"
  shows "trials_at d seating t s = []"
proof -
  have "seating ! (item_sequences d ! s ! tr) \<noteq> t" if "tr < length (item_sequences d ! s)" for tr
  proof -
    have "item_sequences d ! s ! tr < length seating"
      using seq_item_in_range [OF assms(1,3) that] assms(2) by simp
    then have "seating ! (item_sequences d ! s ! tr) \<in> set seating" by (rule nth_mem)
    with assms(4) show ?thesis by auto
  qed
  then show ?thesis by (simp add: trials_at_def)
qed

text \<open>The lookup map of a table after an item has sat down at it.\<close>

lemma lookup_of_assign:
  assumes wf: "wf_inputs d" and len: "length seating = num_items d"
    and item: "item < num_items d" and seat: "seating ! item \<noteq> t"
  shows "lookup_of d (seating[item := t]) t =
         merge_lookup d item (students_who_studied d item) (lookup_of d seating t)"
proof (rule ext)
  fix s
  show "lookup_of d (seating[item := t]) t s =
         merge_lookup d item (students_who_studied d item) (lookup_of d seating t) s"
  proof (cases "s < num_students d \<and> s \<in> train_students d")
    case False
    then have "s \<notin> set (students_who_studied d item)" by (auto simp: set_students_who_studied)
    with False show ?thesis
      by (auto simp: merge_lookup_apply [OF distinct_students_who_studied] lookup_of_def)
  next
    case True
    then have s: "s < num_students d" by simp
    note ta = trials_at_assign [OF wf len s item seat]
    show ?thesis
    proof (cases "item \<in> set (item_sequences d ! s)")
      case in_seq: True
      then have mem: "s \<in> set (students_who_studied d item)"
        using True by (simp add: set_students_who_studied)
      from in_seq have ne: "trials_studied d s item \<noteq> []" by (simp add: trials_studied_empty_iff)
      then have "set (merge_std (trials_at d seating t s) (trials_studied d s item)) \<noteq> {}"
        unfolding set_merge_std by simp
      then have ne': "merge_std (trials_at d seating t s) (trials_studied d s item) \<noteq> []" by auto
      show ?thesis
        using True mem ne'
        by (simp add: merge_lookup_apply [OF distinct_students_who_studied] lookup_of_def ta)
    next
      case not_in: False
      then have mem: "s \<notin> set (students_who_studied d item)"
        by (simp add: set_students_who_studied)
      from not_in have "trials_studied d s item = []" by (simp add: trials_studied_empty_iff)
      then have "merge_std (trials_at d seating t s) (trials_studied d s item) = trials_at d seating t s"
        by (cases "trials_at d seating t s") simp_all
      with mem show ?thesis
        by (simp add: merge_lookup_apply [OF distinct_students_who_studied] lookup_of_def ta)
    qed
  qed
qed

lemma lookup_of_unseated:
  assumes wf: "wf_inputs d" and len: "length seating = num_items d" and t: "t \<notin> set seating"
  shows "lookup_of d seating t = Map.empty"
  by (rule ext) (simp add: lookup_of_def trials_at_empty [OF wf len _ t])

lemma merge_lookup_empty:
  "merge_lookup d item (students_who_studied d item) Map.empty =
   seed_lookup d item (students_who_studied d item)"
  by (rule ext)
    (simp add: merge_lookup_apply [OF distinct_students_who_studied] seed_lookup_apply)

lemma lookup_of_remove:
  assumes wf: "wf_inputs d" and len: "length seating = num_items d"
    and item: "item < num_items d" and seat: "seating ! item = t" and u: "u \<noteq> t"
  shows "fold (remove_student_trials d item) (students_who_studied d item)
           (Inr (lookup_of d seating t)) = Inr (lookup_of d (seating[item := u]) t)"
proof -
  let ?m0 = "lookup_of d seating t"
  let ?st = "students_who_studied d item"
  have pre: "\<forall>s\<in>set ?st. \<exists>l. ?m0 s = Some l \<and> sorted_wrt (<) l \<and>
            set (trials_studied d s item) \<subseteq> set l"
  proof
    fix s assume "s \<in> set ?st"
    then have s: "s < num_students d" "s \<in> train_students d" "item \<in> set (item_sequences d ! s)"
      by (simp_all add: set_students_who_studied)
    note sub = trials_at_remove(2) [OF wf len s(1) item seat u]
    from s(3) have "set (trials_studied d s item) \<noteq> {}"
      using trials_studied_empty_iff [of d s item] by simp
    with sub have "trials_at d seating t s \<noteq> []" by auto
    with s have "?m0 s = Some (trials_at d seating t s)" by (simp add: lookup_of_def)
    with sub strict_sorted_trials_at
    show "\<exists>l. ?m0 s = Some l \<and> sorted_wrt (<) l \<and> set (trials_studied d s item) \<subseteq> set l"
      by blast
  qed
  from remove_fold [OF distinct_students_who_studied pre] obtain m where
    m: "fold (remove_student_trials d item) ?st (Inr ?m0) = Inr m"
    and ms: "\<And>s. m s = (if s \<in> set ?st
                        then (if remove_trials (the (?m0 s)) (trials_studied d s item) = [] then None
                              else Some (remove_trials (the (?m0 s)) (trials_studied d s item)))
                        else ?m0 s)"
    by blast
  have "m s = lookup_of d (seating[item := u]) t s" for s
  proof (cases "s < num_students d \<and> s \<in> train_students d")
    case False
    then have "s \<notin> set ?st" by (auto simp: set_students_who_studied)
    with False show ?thesis by (auto simp: ms lookup_of_def)
  next
    case True
    then have s: "s < num_students d" by simp
    note tr = trials_at_remove [OF wf len s item seat u]
    show ?thesis
    proof (cases "item \<in> set (item_sequences d ! s)")
      case in_seq: True
      then have mem: "s \<in> set ?st" using True by (simp add: set_students_who_studied)
      from in_seq have "set (trials_studied d s item) \<noteq> {}"
        using trials_studied_empty_iff [of d s item] by simp
      with tr(2) have "trials_at d seating t s \<noteq> []" by auto
      with True have "?m0 s = Some (trials_at d seating t s)" by (simp add: lookup_of_def)
      with mem True show ?thesis by (simp add: ms lookup_of_def tr(1))
    next
      case not_in: False
      then have mem: "s \<notin> set ?st" by (simp add: set_students_who_studied)
      from not_in have "trials_studied d s item = []" by (simp add: trials_studied_empty_iff)
      with tr(1) have "trials_at d (seating[item := u]) t s = trials_at d seating t s"
        by (simp add: remove_trials_Nil)
      with mem show ?thesis by (simp add: ms lookup_of_def)
    qed
  qed
  then have "m = lookup_of d (seating[item := u]) t" by (rule ext)
  with m show ?thesis by simp
qed

lemma lookup_of_other:
  assumes wf: "wf_inputs d" and len: "length seating = num_items d"
    and "seating ! item \<noteq> t'" "t \<noteq> t'"
  shows "lookup_of d (seating[item := t]) t' = lookup_of d seating t'"
  by (rule lookup_of_cong) (rule trials_at_update_other [OF wf len _ assms(3,4)])

lemma count_list_assign:
  assumes "item < length seating" "seating ! item \<noteq> t'"
  shows "count_list (seating[item := t]) t' = (if t' = t then count_list seating t' + 1 else count_list seating t')"
  using count_list_update [OF assms(1), of t t'] assms(2) by (simp split: if_splits)

lemma count_list_unassign:
  assumes "item < length seating" "seating ! item = t" "u \<noteq> t"
  shows "count_list (seating[item := u]) t + 1 = count_list seating t"
  using count_list_update [OF assms(1), of u t] assms(2,3) by (simp split: if_splits)

lemma ledger_invI:
  assumes "length (seating_arrangement c) = num_items d"
    and "finite (extant_tables c)"
    and "UNASSIGNED d \<notin> extant_tables c"
    and "set (seating_arrangement c) \<subseteq> insert (UNASSIGNED d) (extant_tables c)"
    and "dom (table_sizes c) = extant_tables c"
    and "dom (parameters c) = extant_tables c"
    and "num_used_skills c = card (extant_tables c)"
    and "\<And>t. t \<in> extant_tables c \<Longrightarrow>
          table_sizes c t = Some (count_list (seating_arrangement c) t) \<and>
          0 < count_list (seating_arrangement c) t"
    and "\<And>t. trial_lookup c t =
          (if t \<in> extant_tables c then Some (lookup_of d (seating_arrangement c) t) else None)"
  shows "ledger_inv d c"
  unfolding ledger_inv_def using assms by (intro conjI ballI ext) blast+

lemma ledger_invD:
  assumes "ledger_inv d c"
  shows "length (seating_arrangement c) = num_items d"
    and "finite (extant_tables c)"
    and "UNASSIGNED d \<notin> extant_tables c"
    and "set (seating_arrangement c) \<subseteq> insert (UNASSIGNED d) (extant_tables c)"
    and "dom (table_sizes c) = extant_tables c"
    and "dom (parameters c) = extant_tables c"
    and "num_used_skills c = card (extant_tables c)"
    and "\<And>t. t \<in> extant_tables c \<Longrightarrow> table_sizes c t = Some (count_list (seating_arrangement c) t)"
    and "\<And>t. t \<in> extant_tables c \<Longrightarrow> 0 < count_list (seating_arrangement c) t"
    and "\<And>t. trial_lookup c t =
          (if t \<in> extant_tables c then Some (lookup_of d (seating_arrangement c) t) else None)"
  using assms unfolding ledger_inv_def by (blast, blast, blast, blast, blast, blast, blast, blast, blast, metis)

lemma assign_new_inv:
  assumes wf: "wf_inputs d" and inv: "ledger_inv d c" and item: "item < num_items d"
    and seat: "seating_arrangement c ! item = UNASSIGNED d"
    and new: "t \<notin> extant_tables c" and tU: "t \<noteq> UNASSIGNED d"
  shows "\<exists>c'. assign_item_to_table d prm item t True c = Inr c' \<and> ledger_inv d c' \<and>
           seating_arrangement c' = (seating_arrangement c)[item := t] \<and>
           extant_tables c' = insert t (extant_tables c)"
proof -
  note I = ledger_invD [OF inv]
  let ?sa = "seating_arrangement c"
  let ?c' = "c\<lparr>parameters := (parameters c)(t \<mapsto> prm),
               seating_arrangement := ?sa[item := t],
               table_sizes := (table_sizes c)(t \<mapsto> 1),
               extant_tables := insert t (extant_tables c),
               num_used_skills := num_used_skills c + 1,
               trial_lookup := (trial_lookup c)(t \<mapsto>
                  seed_lookup d item (students_who_studied d item))\<rparr>"
  have il: "item < length ?sa" using item I(1) by simp
  have tns: "t \<notin> set ?sa" using I(4) new tU by auto
  then have c0: "count_list ?sa t = 0" by (simp add: count_list_0_iff)
  have seat': "?sa ! item \<noteq> t" using seat tU by simp
  have card': "num_used_skills ?c' = card (dom (table_sizes ?c'))"
    using I(2,5,7) new by simp
  then have res: "assign_item_to_table d prm item t True c = Inr ?c'"
    using item unfolding assign_item_to_table_def by (simp add: Let_def)
  have "ledger_inv d ?c'"
  proof (rule ledger_invI)
    show "length (seating_arrangement ?c') = num_items d" using I(1) by simp
    show "finite (extant_tables ?c')" using I(2) by simp
    show "UNASSIGNED d \<notin> extant_tables ?c'" using I(3) tU by simp
    show "set (seating_arrangement ?c') \<subseteq> insert (UNASSIGNED d) (extant_tables ?c')"
      using I(4) set_update_subset_insert [of ?sa item t] by auto
    show "dom (table_sizes ?c') = extant_tables ?c'" using I(5) by simp
    show "dom (parameters ?c') = extant_tables ?c'" using I(6) by simp
    show "num_used_skills ?c' = card (extant_tables ?c')" using I(2,7) new by simp
  next
    fix t' assume t': "t' \<in> extant_tables ?c'"
    show "table_sizes ?c' t' = Some (count_list (seating_arrangement ?c') t') \<and>
          0 < count_list (seating_arrangement ?c') t'"
    proof (cases "t' = t")
      case True
      then show ?thesis using c0 count_list_assign [OF il seat', of t] by simp
    next
      case False
      with t' have ex: "t' \<in> extant_tables c" by simp
      with I(3) seat have "?sa ! item \<noteq> t'" by auto
      from count_list_assign [OF il this, of t] False I(8) [OF ex] I(9) [OF ex]
      show ?thesis by simp
    qed
  next
    fix t'
    show "trial_lookup ?c' t' =
          (if t' \<in> extant_tables ?c' then Some (lookup_of d (seating_arrangement ?c') t') else None)"
    proof (cases "t' = t")
      case True
      have "lookup_of d (?sa[item := t]) t =
            merge_lookup d item (students_who_studied d item) (lookup_of d ?sa t)"
        by (rule lookup_of_assign [OF wf I(1) item seat'])
      also have "lookup_of d ?sa t = Map.empty"
        by (rule lookup_of_unseated [OF wf I(1) tns])
      finally show ?thesis using True by (simp add: merge_lookup_empty)
    next
      case False
      show ?thesis
      proof (cases "t' \<in> extant_tables c")
        case True
        with I(3) seat have "?sa ! item \<noteq> t'" by auto
        from lookup_of_other [OF wf I(1) this, of t] False True I(10) [of t']
        show ?thesis by simp
      next
        case nex: False
        with False I(10) [of t'] show ?thesis by simp
      qed
    qed
  qed
  with res show ?thesis by (intro exI [of _ ?c']) simp
qed

lemma assign_old_inv:
  assumes wf: "wf_inputs d" and inv: "ledger_inv d c" and item: "item < num_items d"
    and seat: "seating_arrangement c ! item = UNASSIGNED d"
    and old: "t \<in> extant_tables c"
  shows "\<exists>c'. assign_item_to_table d prm item t False c = Inr c' \<and> ledger_inv d c' \<and>
           seating_arrangement c' = (seating_arrangement c)[item := t] \<and>
           extant_tables c' = extant_tables c \<and> parameters c' = parameters c"
proof -
  note I = ledger_invD [OF inv]
  let ?sa = "seating_arrangement c"
  let ?c' = "c\<lparr>seating_arrangement := ?sa[item := t],
               table_sizes := (table_sizes c)(t \<mapsto> size_or_zero (table_sizes c) t + 1),
               trial_lookup := (trial_lookup c)(t \<mapsto>
                  merge_lookup d item (students_who_studied d item)
                    (lookup_or_empty (trial_lookup c) t))\<rparr>"
  have il: "item < length ?sa" using item I(1) by simp
  have tU: "t \<noteq> UNASSIGNED d" using old I(3) by auto
  have seat': "?sa ! item \<noteq> t" using seat tU by simp
  have dom': "dom (table_sizes ?c') = extant_tables c" using I(5) old by auto
  then have card': "num_used_skills ?c' = card (dom (table_sizes ?c'))"
    using I(7) by simp
  have sz: "size_or_zero (table_sizes c) t = count_list ?sa t"
    using I(8) [OF old] by (simp add: size_or_zero_def)
  have le: "lookup_or_empty (trial_lookup c) t = lookup_of d ?sa t"
    using I(10) [of t] old by (simp add: lookup_or_empty_def)
  have untouched: "(trial_lookup c)(t \<mapsto>
       merge_lookup d item (students_who_studied d item) (lookup_or_empty (trial_lookup c) t))
       = trial_lookup c" if "students_who_studied d item = []"
  proof -
    have "trial_lookup c t = Some (lookup_or_empty (trial_lookup c) t)"
      using I(10) [of t] old le by simp
    then show ?thesis using that by (simp add: merge_lookup_def map_upd_triv)
  qed
  have res: "assign_item_to_table d prm item t False c = Inr ?c'"
    using item card' untouched unfolding assign_item_to_table_def
    by (cases "students_who_studied d item = []") (simp_all add: Let_def)
  have "ledger_inv d ?c'"
  proof (rule ledger_invI)
    show "length (seating_arrangement ?c') = num_items d" using I(1) by simp
    show "finite (extant_tables ?c')" using I(2) by simp
    show "UNASSIGNED d \<notin> extant_tables ?c'" using I(3) by simp
    show "set (seating_arrangement ?c') \<subseteq> insert (UNASSIGNED d) (extant_tables ?c')"
      using I(4) set_update_subset_insert [of ?sa item t] old by auto
    show "dom (table_sizes ?c') = extant_tables ?c'" using dom' by simp
    show "dom (parameters ?c') = extant_tables ?c'" using I(6) by simp
    show "num_used_skills ?c' = card (extant_tables ?c')" using I(7) by simp
  next
    fix t' assume t': "t' \<in> extant_tables ?c'"
    then have ex: "t' \<in> extant_tables c" by simp
    with I(3) seat have ne: "?sa ! item \<noteq> t'" by auto
    show "table_sizes ?c' t' = Some (count_list (seating_arrangement ?c') t') \<and>
          0 < count_list (seating_arrangement ?c') t'"
      using count_list_assign [OF il ne, of t] I(8) [OF ex] I(9) [OF ex] sz by simp
  next
    fix t'
    show "trial_lookup ?c' t' =
          (if t' \<in> extant_tables ?c' then Some (lookup_of d (seating_arrangement ?c') t') else None)"
    proof (cases "t' = t")
      case True
      have "lookup_of d (?sa[item := t]) t =
            merge_lookup d item (students_who_studied d item) (lookup_of d ?sa t)"
        by (rule lookup_of_assign [OF wf I(1) item seat'])
      then show ?thesis using True old le by simp
    next
      case False
      show ?thesis
      proof (cases "t' \<in> extant_tables c")
        case True
        with I(3) seat have "?sa ! item \<noteq> t'" by auto
        from lookup_of_other [OF wf I(1) this, of t] False True I(10) [of t']
        show ?thesis by simp
      next
        case nex: False
        with False I(10) [of t'] show ?thesis by simp
      qed
    qed
  qed
  with res show ?thesis by (intro exI [of _ ?c']) simp
qed

lemma remove_inv:
  assumes wf: "wf_inputs d" and inv: "ledger_inv d c" and item: "item < num_items d"
    and seat: "seating_arrangement c ! item = t" and tU: "t \<noteq> UNASSIGNED d"
  shows "\<exists>c'. remove_item_from_table d item t c = Inr (count_list (seating_arrangement c) t = 1, c') \<and>
           ledger_inv d c' \<and>
           seating_arrangement c' = (seating_arrangement c)[item := UNASSIGNED d] \<and>
           extant_tables c' = (if count_list (seating_arrangement c) t = 1
                               then extant_tables c - {t} else extant_tables c) \<and>
           (\<forall>t'. t' \<noteq> t \<longrightarrow> parameters c' t' = parameters c t') \<and>
           (count_list (seating_arrangement c) t \<noteq> 1 \<longrightarrow> parameters c' = parameters c)"
proof -
  note I = ledger_invD [OF inv]
  let ?sa = "seating_arrangement c"
  let ?U = "UNASSIGNED d"
  have il: "item < length ?sa" using item I(1) by simp
  then have "t \<in> set ?sa" using seat nth_mem by blast
  with I(4) tU have ex: "t \<in> extant_tables c" by auto
  have sz: "size_or_zero (table_sizes c) t = count_list ?sa t"
    using I(8) [OF ex] by (simp add: size_or_zero_def)
  have pos: "0 < count_list ?sa t" by (rule I(9) [OF ex])
  have cnt: "count_list (?sa[item := ?U]) t + 1 = count_list ?sa t"
    by (rule count_list_unassign [OF il seat]) (use tU in simp)
  have dec: "dec_size_t (count_list ?sa t) = count_list (?sa[item := ?U]) t"
    using pos cnt by (simp add: dec_size_t_def)
  have other_count: "count_list (?sa[item := ?U]) t' = count_list ?sa t'"
    if "t' \<in> extant_tables c" "t' \<noteq> t" for t'
  proof -
    from that I(3) have "t' \<noteq> ?U" by auto
    with count_list_update [OF il, of ?U t'] that(2) seat show ?thesis by simp
  qed
  have other_lookup: "lookup_of d (?sa[item := ?U]) t' = lookup_of d ?sa t'"
    if "t' \<in> extant_tables c" "t' \<noteq> t" for t'
  proof -
    from that I(3) have "?U \<noteq> t'" by auto
    moreover from that seat have "?sa ! item \<noteq> t'" by simp
    ultimately show ?thesis using lookup_of_other [OF wf I(1)] by blast
  qed
  show ?thesis
  proof (cases "count_list ?sa t = 1")
    case True
    with cnt have zero: "count_list (?sa[item := ?U]) t = 0" by simp
    then have tns: "t \<notin> set (?sa[item := ?U])" by (simp add: count_list_0_iff)
    let ?c' = "c\<lparr>seating_arrangement := ?sa[item := ?U],
               table_sizes := (table_sizes c)(t := None),
               parameters := (parameters c)(t := None),
               extant_tables := extant_tables c - {t},
               num_used_skills := dec_size_t (num_used_skills c),
               trial_lookup := (trial_lookup c)(t := None)\<rparr>"
    have res: "remove_item_from_table d item t c = Inr (True, ?c')"
      using dec zero sz unfolding remove_item_from_table_def by (simp add: Let_def)
    have cpos: "0 < card (extant_tables c)" using ex I(2) by (auto simp: card_gt_0_iff)
    have "ledger_inv d ?c'"
    proof (rule ledger_invI)
      show "length (seating_arrangement ?c') = num_items d" using I(1) by simp
      show "finite (extant_tables ?c')" using I(2) by simp
      show "UNASSIGNED d \<notin> extant_tables ?c'" using I(3) by simp
      show "set (seating_arrangement ?c') \<subseteq> insert (UNASSIGNED d) (extant_tables ?c')"
        using I(4) set_update_subset_insert [of ?sa item ?U] tns by auto
      show "dom (table_sizes ?c') = extant_tables ?c'" using I(5) by auto
      show "dom (parameters ?c') = extant_tables ?c'" using I(6) by auto
      show "num_used_skills ?c' = card (extant_tables ?c')"
        using I(2,7) ex cpos by (auto simp: dec_size_t_def)
    next
      fix t' assume "t' \<in> extant_tables ?c'"
      then have t': "t' \<in> extant_tables c" "t' \<noteq> t" by simp_all
      show "table_sizes ?c' t' = Some (count_list (seating_arrangement ?c') t') \<and>
          0 < count_list (seating_arrangement ?c') t'"
        using other_count [OF t'] I(8) [OF t'(1)] I(9) [OF t'(1)] t'(2) by simp
    next
      fix t'
      show "trial_lookup ?c' t' =
          (if t' \<in> extant_tables ?c' then Some (lookup_of d (seating_arrangement ?c') t') else None)"
        using I(10) [of t'] other_lookup [of t'] by (cases "t' = t") auto
    qed
    with res True show ?thesis by (intro exI [of _ ?c']) simp
  next
    case False
    with pos cnt have npos: "0 < count_list (?sa[item := ?U]) t" by simp
    have le: "lookup_or_empty (trial_lookup c) t = lookup_of d ?sa t"
      using I(10) [of t] ex by (simp add: lookup_or_empty_def)
    have fold_eq: "fold (remove_student_trials d item) (students_who_studied d item)
           (Inr (lookup_of d ?sa t)) = Inr (lookup_of d (?sa[item := ?U]) t)"
      by (rule lookup_of_remove [OF wf I(1) item seat]) (use tU in simp)
    let ?c' = "c\<lparr>seating_arrangement := ?sa[item := ?U],
                   table_sizes := (table_sizes c)(t \<mapsto> count_list (?sa[item := ?U]) t),
                   trial_lookup := (trial_lookup c)(t \<mapsto> lookup_of d (?sa[item := ?U]) t)\<rparr>"
    have untouched: "(trial_lookup c)(t \<mapsto> lookup_of d (?sa[item := ?U]) t) = trial_lookup c"
      if "students_who_studied d item = []"
    proof -
      from fold_eq that have "lookup_of d (?sa[item := ?U]) t = lookup_of d ?sa t" by simp
      moreover have "trial_lookup c t = Some (lookup_of d ?sa t)" using I(10) [of t] ex by simp
      ultimately show ?thesis by (simp add: map_upd_triv)
    qed
    have res: "remove_item_from_table d item t c = Inr (False, ?c')"
      using dec npos sz item le fold_eq untouched unfolding remove_item_from_table_def
      by (cases "students_who_studied d item = []") (simp_all add: Let_def)
    have "ledger_inv d ?c'"
    proof (rule ledger_invI)
      show "length (seating_arrangement ?c') = num_items d" using I(1) by simp
      show "finite (extant_tables ?c')" using I(2) by simp
      show "UNASSIGNED d \<notin> extant_tables ?c'" using I(3) by simp
      show "set (seating_arrangement ?c') \<subseteq> insert (UNASSIGNED d) (extant_tables ?c')"
        using I(4) set_update_subset_insert [of ?sa item ?U] by auto
      show "dom (table_sizes ?c') = extant_tables ?c'" using I(5) ex by auto
      show "dom (parameters ?c') = extant_tables ?c'" using I(6) by auto
      show "num_used_skills ?c' = card (extant_tables ?c')" using I(7) by simp
    next
      fix t' assume "t' \<in> extant_tables ?c'"
      then have t': "t' \<in> extant_tables c" by simp
      show "table_sizes ?c' t' = Some (count_list (seating_arrangement ?c') t') \<and>
          0 < count_list (seating_arrangement ?c') t'"
        using other_count [OF t'] I(8) [OF t'] I(9) [OF t'] npos by (cases "t' = t") simp_all
    next
      fix t'
      show "trial_lookup ?c' t' =
          (if t' \<in> extant_tables ?c' then Some (lookup_of d (seating_arrangement ?c') t') else None)"
        using I(10) [of t'] other_lookup [of t'] ex by (cases "t' = t") auto
    qed
    with res False show ?thesis by (intro exI [of _ ?c']) simp
  qed
qed

subsection \<open>The ledger invariant\<close>

lemma init_chain_inv: "ledger_inv d (init_chain d)"
  by (rule ledger_invI) (auto simp: init_chain_def empty_chain_def)

lemma reachable_inv:
  assumes wf: "wf_inputs d" and r: "reachable d c"
  shows "ledger_inv d c"
  using r
proof (induction rule: reachable.induct)
  case reach_init
  show ?case by (rule init_chain_inv)
next
  case (reach_assign_new c item table_id prm c')
  from assign_new_inv [OF wf reach_assign_new.IH reach_assign_new.hyps(2-5), of prm]
    reach_assign_new.hyps(6)
  show ?case by auto
next
  case (reach_assign_old c item table_id prm c')
  from assign_old_inv [OF wf reach_assign_old.IH reach_assign_old.hyps(2-4), of prm]
    reach_assign_old.hyps(5)
  show ?case by auto
next
  case (reach_remove c item table_id deleted c')
  from remove_inv [OF wf reach_remove.IH reach_remove.hyps(2-4)] reach_remove.hyps(5)
  show ?case by auto
next
  case (reach_params c table_id prm)
  note I = ledger_invD [OF reach_params.IH]
  show ?case
    by (rule ledger_invI) (use I reach_params.hyps(2) in auto)
next
  case (reach_other c a g n ps ls ts)
  note I = ledger_invD [OF reach_other.IH]
  show ?case
    by (rule ledger_invI) (use I in auto)
qed

lemma example_wf: "wf_inputs example_inputs"
  by (simp add: wf_inputs_def example_inputs_def)

lemma ex_students: "students_who_studied example_inputs 0 = [0]"
  "students_who_studied example_inputs (Suc 0) = [0]"
  by (simp_all add: students_who_studied_def ever_studied_def example_inputs_def)

lemma ex_trials: "trials_studied example_inputs 0 0 = [0, 2]"
  "trials_studied example_inputs 0 (Suc 0) = [1]"
  by (simp_all add: trials_studied_def example_inputs_def upt_rec)

lemma ex_assign1:
  "assign_item_to_table example_inputs example_params 0 1 True (init_chain example_inputs)
     = Inr example_chain1"
  unfolding assign_item_to_table_def
  apply (simp add: Let_def ex_students seed_lookup_def ex_trials)
  apply (simp add: example_inputs_def init_chain_def empty_chain_def example_chain1_def numeral_2_eq_2)
  done


lemma ex_assign2:
  "assign_item_to_table example_inputs example_params 1 1 False example_chain1
     = Inr example_chain2"
  unfolding assign_item_to_table_def
  apply (simp add: Let_def ex_students merge_lookup_def ex_trials size_or_zero_def lookup_or_empty_def
      example_chain1_def)
  apply (simp add: example_inputs_def init_chain_def empty_chain_def example_chain2_def example_chain1_def numeral_2_eq_2)
  done

lemma ex_remove3:
  "remove_item_from_table example_inputs 0 1 example_chain2 = Inr (False, example_chain3)"
  unfolding remove_item_from_table_def
  apply (simp add: Let_def ex_students remove_student_trials_def ex_trials size_or_zero_def lookup_or_empty_def
      example_chain2_def example_chain1_def dec_size_t_def)
  apply (simp add: example_inputs_def init_chain_def empty_chain_def example_chain3_def example_chain2_def example_chain1_def numeral_2_eq_2)
  done

lemma ex_reach1: "reachable example_inputs example_chain1"
  by (rule reach_assign_new [OF reach_init _ _ _ _ ex_assign1])
    (simp_all add: init_chain_def empty_chain_def example_inputs_def)

lemma ex_reach2: "reachable example_inputs example_chain2"
  by (rule reach_assign_old [OF ex_reach1 _ _ _ ex_assign2])
    (simp_all add: example_chain1_def example_inputs_def)


text \<open>
  C1. In every reachable chain state, \<open>num_used_skills\<close> is the number of skills whose
  size is positive, every item is either \<open>UNASSIGNED\<close> (as during a Gibbs step) or
  seated at an extant table of positive size, and every list of trial indices in
  \<open>trial_lookup\<close> is sorted ascending without duplicates.
\<close>

theorem ledger_invariant:
  assumes "wf_inputs d" and "reachable d c"
  shows "num_used_skills c = card {t. \<exists>n>0. table_sizes c t = Some n} \<and>
         (\<forall>item<num_items d.
            seating_arrangement c ! item = UNASSIGNED d \<or>
            (seating_arrangement c ! item \<in> extant_tables c \<and>
             (\<exists>n>0. table_sizes c (seating_arrangement c ! item) = Some n))) \<and>
         (\<forall>t m s l. trial_lookup c t = Some m \<and> m s = Some l \<longrightarrow> sorted l \<and> distinct l)"
proof -
  note I = ledger_invD [OF reachable_inv [OF assms]]
  have "{t. \<exists>n>0. table_sizes c t = Some n} = extant_tables c"
    using I(5,8,9) by (auto simp: dom_def)
  then have a: "num_used_skills c = card {t. \<exists>n>0. table_sizes c t = Some n}"
    using I(7) by simp
  have b: "seating_arrangement c ! item = UNASSIGNED d \<or>
            (seating_arrangement c ! item \<in> extant_tables c \<and>
             (\<exists>n>0. table_sizes c (seating_arrangement c ! item) = Some n))"
    if "item < num_items d" for item
  proof -
    from that I(1) have "seating_arrangement c ! item \<in> set (seating_arrangement c)" by simp
    with I(4) have "seating_arrangement c ! item = UNASSIGNED d \<or>
       seating_arrangement c ! item \<in> extant_tables c" by auto
    then show ?thesis using I(8,9) by auto
  qed
  have c: "sorted l \<and> distinct l" if "trial_lookup c t = Some m \<and> m s = Some l" for t m s l
  proof -
    from that I(10) [of t] have "m = lookup_of d (seating_arrangement c) t"
      by (auto split: if_splits)
    with that have "l = trials_at d (seating_arrangement c) t s"
      by (auto simp: lookup_of_def split: if_splits)
    then show ?thesis using strict_sorted_trials_at [of d "seating_arrangement c" t s]
      by (simp add: strict_sorted_iff)
  qed
  from a b c show ?thesis by blast
qed

theorem ledger_invariant_witness:
  "reachable example_inputs example_chain2 \<and>
   num_used_skills example_chain2 = 1 \<and>
   card {t. \<exists>n>0. table_sizes example_chain2 t = Some n} = 1 \<and>
   seating_arrangement example_chain2 ! 0 \<in> extant_tables example_chain2 \<and>
   trial_lookup example_chain2 1 = Some [0 \<mapsto> [0, 1, 2]] \<and> sorted [0, 1, 2::nat] \<and>
   distinct [0, 1, 2::nat]"
proof -
  note T = ledger_invariant [OF example_wf ex_reach2]
  have n: "num_used_skills example_chain2 = 1"
    and tl: "trial_lookup example_chain2 1 = Some [0 \<mapsto> [0, 1, 2]]"
    and seat: "seating_arrangement example_chain2 ! 0 \<noteq> UNASSIGNED example_inputs"
    and it: "0 < num_items example_inputs"
    by (simp_all add: example_chain2_def example_chain1_def example_inputs_def)
  from T n have "card {t. \<exists>n>0. table_sizes example_chain2 t = Some n} = 1" by simp
  moreover from T it seat have "seating_arrangement example_chain2 ! 0 \<in> extant_tables example_chain2"
    by blast
  moreover from T tl have "sorted [0, 1, 2::nat] \<and> distinct [0, 1, 2::nat]"
    by (elim conjE allE [of _ 1] allE [of _ "[0 \<mapsto> [0, 1, 2]]"] allE [of _ 0] allE [of _ "[0, 1, 2]"]) simp
  ultimately show ?thesis using ex_reach2 n tl by blast
qed

text \<open>
  C10. In every reachable chain state, \<open>trial_lookup\<close> has an entry for a skill and
  a student exactly when the skill is a real table id, the student is a training
  student, and one of the student's trials is on an item now seated at that skill; and
  every entry is a non-empty list.
\<close>

theorem trial_lookup_entries:
  assumes "wf_inputs d" and "reachable d c"
  shows "((\<exists>m l. trial_lookup c t = Some m \<and> m s = Some l) \<longleftrightarrow>
           t \<noteq> UNASSIGNED d \<and> s < num_students d \<and> s \<in> train_students d \<and>
           (\<exists>trial<length (item_sequences d ! s).
              seating_arrangement c ! (item_sequences d ! s ! trial) = t)) \<and>
         (\<forall>m l. trial_lookup c t = Some m \<and> m s = Some l \<longrightarrow> l \<noteq> [])"
proof -
  note I = ledger_invD [OF reachable_inv [OF assms]]
  let ?sa = "seating_arrangement c"
  have ne: "trials_at d ?sa t s \<noteq> [] \<longleftrightarrow>
     (\<exists>trial<length (item_sequences d ! s). ?sa ! (item_sequences d ! s ! trial) = t)"
  proof -
    have "trials_at d ?sa t s \<noteq> [] \<longleftrightarrow> set (trials_at d ?sa t s) \<noteq> {}" by simp
    also have "\<dots> \<longleftrightarrow> (\<exists>trial<length (item_sequences d ! s). ?sa ! (item_sequences d ! s ! trial) = t)"
      unfolding set_trials_at by auto
    finally show ?thesis .
  qed
  have A: "(\<exists>m l. trial_lookup c t = Some m \<and> m s = Some l) \<longleftrightarrow>
           t \<noteq> UNASSIGNED d \<and> s < num_students d \<and> s \<in> train_students d \<and>
           (\<exists>trial<length (item_sequences d ! s). ?sa ! (item_sequences d ! s ! trial) = t)"
  proof (cases "t \<in> extant_tables c")
    case True
    with I(3) have "t \<noteq> UNASSIGNED d" by auto
    with True I(10) [of t] ne show ?thesis by (simp add: lookup_of_def)
  next
    case False
    have "\<not> (\<exists>trial<length (item_sequences d ! s). ?sa ! (item_sequences d ! s ! trial) = t)"
      if "t \<noteq> UNASSIGNED d" "s < num_students d"
    proof -
      from that(1) False I(4) have "t \<notin> set ?sa" by auto
      from trials_at_empty [OF assms(1) I(1) that(2) this] ne show ?thesis by simp
    qed
    with False I(10) [of t] show ?thesis by auto
  qed
  have B: "l \<noteq> []" if "trial_lookup c t = Some m \<and> m s = Some l" for m l
    using that I(10) [of t] by (auto simp: lookup_of_def split: if_splits)
  from A B show ?thesis by blast
qed

theorem trial_lookup_entries_witness:
  "\<exists>m l. trial_lookup example_chain2 1 = Some m \<and> m 0 = Some l \<and> l \<noteq> []"
proof -
  note T = trial_lookup_entries [OF example_wf ex_reach2, of 1 0]
  have "(1::nat) \<noteq> UNASSIGNED example_inputs \<and> 0 < num_students example_inputs \<and>
        0 \<in> train_students example_inputs \<and>
        (\<exists>trial<length (item_sequences example_inputs ! 0).
            seating_arrangement example_chain2 ! (item_sequences example_inputs ! 0 ! trial) = 1)"
    by (simp add: example_inputs_def example_chain2_def example_chain1_def) (rule exI [of _ 0], simp)
  with T show ?thesis by blast
qed

text \<open>
  C4. In a reachable chain state in which the item sits at the skill, removing the item
  succeeds, and seating it again at the same skill (as a new table exactly when the
  removal deleted the table, with whatever parameters are drawn) succeeds and gives
  back the trial-index structure, the seating arrangement and the table sizes.
\<close>

theorem remove_assign_round_trip:
  assumes wf: "wf_inputs d" and r: "reachable d c" and item: "item < num_items d"
    and seat: "seating_arrangement c ! item = t" and tU: "t \<noteq> UNASSIGNED d"
  shows "\<exists>deleted c1 c2.
           remove_item_from_table d item t c = Inr (deleted, c1) \<and>
           assign_item_to_table d prm item t deleted c1 = Inr c2 \<and>
           trial_lookup c2 = trial_lookup c \<and>
           seating_arrangement c2 = seating_arrangement c \<and>
           table_sizes c2 = table_sizes c"
proof -
  note inv = reachable_inv [OF wf r]
  note I = ledger_invD [OF inv]
  let ?sa = "seating_arrangement c"
  let ?del = "count_list ?sa t = 1"
  from remove_inv [OF wf inv item seat tU] obtain c1 where
    c1: "remove_item_from_table d item t c = Inr (?del, c1)" "ledger_inv d c1"
      "seating_arrangement c1 = ?sa[item := UNASSIGNED d]"
      "extant_tables c1 = (if ?del then extant_tables c - {t} else extant_tables c)"
    by blast
  have il: "item < length ?sa" using item I(1) by simp
  then have "t \<in> set ?sa" using seat nth_mem by blast
  with I(4) tU have ex: "t \<in> extant_tables c" by auto
  have seat1: "seating_arrangement c1 ! item = UNASSIGNED d" using c1(3) il by simp
  have "\<exists>c2. assign_item_to_table d prm item t ?del c1 = Inr c2 \<and> ledger_inv d c2 \<and>
          seating_arrangement c2 = ?sa \<and> extant_tables c2 = extant_tables c"
  proof (cases ?del)
    case True
    with c1(4) have "t \<notin> extant_tables c1" by simp
    from assign_new_inv [OF wf c1(2) item seat1 this tU, of prm] True c1(3,4) seat ex
    show ?thesis by (auto simp: insert_absorb)
  next
    case False
    with c1(4) ex have "t \<in> extant_tables c1" by simp
    from assign_old_inv [OF wf c1(2) item seat1 this, of prm] False c1(3,4) seat
    show ?thesis by auto
  qed
  then obtain c2 where c2: "assign_item_to_table d prm item t ?del c1 = Inr c2" "ledger_inv d c2"
    "seating_arrangement c2 = ?sa" "extant_tables c2 = extant_tables c" by blast
  note I2 = ledger_invD [OF c2(2)]
  have "trial_lookup c2 = trial_lookup c"
    by (rule ext) (simp add: I2(10) I(10) c2(3,4))
  moreover have "table_sizes c2 t' = table_sizes c t'" for t'
  proof (cases "t' \<in> extant_tables c")
    case True
    then show ?thesis using I2(8) [of t'] I(8) [of t'] c2(3,4) by simp
  next
    case False
    then have "t' \<notin> dom (table_sizes c2)" "t' \<notin> dom (table_sizes c)"
      using I2(5) I(5) c2(4) by simp_all
    then show ?thesis by (simp add: domIff)
  qed
  then have "table_sizes c2 = table_sizes c" by (rule ext)
  ultimately show ?thesis using c1(1) c2(1,3) by blast
qed

theorem remove_assign_round_trip_witness:
  "\<exists>c2. remove_item_from_table example_inputs 0 1 example_chain2 = Inr (False, example_chain3) \<and>
        assign_item_to_table example_inputs example_params 0 1 False example_chain3 = Inr c2 \<and>
        trial_lookup c2 = trial_lookup example_chain2"
proof -
  have "0 < num_items example_inputs" "seating_arrangement example_chain2 ! 0 = 1"
    "1 \<noteq> UNASSIGNED example_inputs"
    by (simp_all add: example_inputs_def example_chain2_def example_chain1_def)
  from remove_assign_round_trip [OF example_wf ex_reach2 this, of example_params]
  obtain deleted c1 c2 where
    a: "remove_item_from_table example_inputs 0 1 example_chain2 = Inr (deleted, c1)"
    and b: "assign_item_to_table example_inputs example_params 0 1 deleted c1 = Inr c2"
    and c: "trial_lookup c2 = trial_lookup example_chain2"
    by blast
  from a have "Inr (deleted, c1) = (Inr (False, example_chain3) :: error + bool \<times> chain)"
    unfolding ex_remove3 by (rule sym)
  then have "deleted = False" "c1 = example_chain3" by simp_all
  with b c show ?thesis using ex_remove3 by blast
qed

subsection \<open>The sample recorder and the queries\<close>

lemma relabel_loop_inv:
  "m \<le> n \<Longrightarrow> n \<le> length seating \<Longrightarrow>
   \<exists>skill_labels cur.
     foldl (relabel_step seating) (Inr ([], replicate n 0)) [0..<m] = Inr (skill_labels, cur) \<and>
     relabel_inv seating n m skill_labels cur"
proof (induction m)
  case 0
  show ?case by (simp add: relabel_inv_def)
next
  case (Suc m)
  then obtain sl cur where
    st: "foldl (relabel_step seating) (Inr ([], replicate n 0)) [0..<m] = Inr (sl, cur)"
    and inv: "relabel_inv seating n m sl cur" by auto
  from inv have I: "distinct (map fst sl)" "map snd sl = [0..<length sl]"
    "set (map fst sl) = set (take m seating)" "length cur = n"
    "\<And>i. i < m \<Longrightarrow> map_of sl (seating ! i) = Some (cur ! i)"
    by (simp_all add: relabel_inv_def)
  from Suc.prems have m: "m < length seating" "m < n" by simp_all
  let ?t = "seating ! m"
  have take: "set (take (Suc m) seating) = insert ?t (set (take m seating))"
    using m(1) by (simp add: take_Suc_conv_app_nth)
  show ?case
  proof (cases "map_of sl ?t")
    case None
    then have notin: "?t \<notin> set (map fst sl)" by (simp add: map_of_eq_None_iff)
    let ?sl = "sl @ [(?t, length sl)]"
    let ?cur = "cur[m := length sl]"
    have look: "map_of ?sl ?t = Some (length sl)" using None by (simp add: map_add_def)
    have step: "relabel_step seating (Inr (sl, cur)) m = Inr (?sl, ?cur)"
      using m(1) None look by (simp add: relabel_step_def Let_def)
    have "relabel_inv seating n (Suc m) ?sl ?cur"
      unfolding relabel_inv_def
    proof (intro conjI allI impI)
      show "distinct (map fst ?sl)" using I(1) notin by simp
      show "map snd ?sl = [0..<length ?sl]" using I(2) by simp
      show "set (map fst ?sl) = set (take (Suc m) seating)" using I(3) take by auto
      show "length ?cur = n" using I(4) by simp
    next
      fix i assume "i < Suc m"
      show "map_of ?sl (seating ! i) = Some (?cur ! i)"
      proof (cases "i = m")
        case True
        with look m(2) I(4) show ?thesis by simp
      next
        case False
        with \<open>i < Suc m\<close> have im: "i < m" by simp
        from I(5) [OF im] have "map_of ?sl (seating ! i) = Some (cur ! i)"
          by (simp add: map_add_def)
        with False show ?thesis by simp
      qed
    qed
    with st step show ?thesis by simp
  next
    case (Some l)
    then have "?t \<in> set (map fst sl)"
      by (metis map_of_eq_None_iff option.distinct(1) set_map)
    have step: "relabel_step seating (Inr (sl, cur)) m = Inr (sl, cur[m := l])"
      using m(1) Some by (simp add: relabel_step_def Let_def)
    have "relabel_inv seating n (Suc m) sl (cur[m := l])"
      unfolding relabel_inv_def
    proof (intro conjI allI impI)
      show "distinct (map fst sl)" by (rule I(1))
      show "map snd sl = [0..<length sl]" by (rule I(2))
      show "set (map fst sl) = set (take (Suc m) seating)"
        using I(3) take \<open>?t \<in> set (map fst sl)\<close> by auto
      show "length (cur[m := l]) = n" using I(4) by simp
    next
      fix i assume "i < Suc m"
      show "map_of sl (seating ! i) = Some (cur[m := l] ! i)"
      proof (cases "i = m")
        case True
        with Some m(2) I(4) show ?thesis by simp
      next
        case False
        with \<open>i < Suc m\<close> have im: "i < m" by simp
        from I(5) [OF im] False show ?thesis by simp
      qed
    qed
    with st step show ?thesis by simp
  qed
qed

lemma relabel_inv_inj:
  assumes "relabel_inv seating n m sl cur" "map_of sl a = Some x" "map_of sl b = Some x"
  shows "a = b"
proof -
  from assms(1) have d: "distinct (map snd sl)" by (simp add: relabel_inv_def)
  from assms(2,3) have "(a, x) \<in> set sl" "(b, x) \<in> set sl" by (auto dest: map_of_SomeD)
  moreover from d have "inj_on snd (set sl)" by (simp add: distinct_map)
  ultimately have "(a, x) = (b, x)"
    by (intro inj_onD [of snd "set sl" "(a, x)" "(b, x)"]) simp_all
  then show ?thesis by simp
qed


lemma relabel_dense:
  assumes "n \<le> length seating"
  shows "\<exists>cur. relabel n seating = Inr cur \<and> length cur = n \<and>
           set cur = {0..<card (set (take n seating))} \<and>
           (\<forall>i<n. \<forall>j<n. cur ! i = cur ! j \<longleftrightarrow> seating ! i = seating ! j)"
proof -
  from relabel_loop_inv [OF order_refl assms] obtain sl cur where
    st: "foldl (relabel_step seating) (Inr ([], replicate n 0)) [0..<n] = Inr (sl, cur)"
    and inv: "relabel_inv seating n n sl cur" by blast
  from inv have I: "distinct (map fst sl)" "map snd sl = [0..<length sl]"
    "set (map fst sl) = set (take n seating)" "length cur = n"
    "\<And>i. i < n \<Longrightarrow> map_of sl (seating ! i) = Some (cur ! i)"
    by (simp_all add: relabel_inv_def)
  have res: "relabel n seating = Inr cur" using st by (simp add: relabel_def)
  have k: "card (set (take n seating)) = length sl"
    using I(1,3) distinct_card [of "map fst sl"] by simp
  have eq: "cur ! i = cur ! j \<longleftrightarrow> seating ! i = seating ! j" if "i < n" "j < n" for i j
  proof
    assume "cur ! i = cur ! j"
    with I(5) [OF that(1)] I(5) [OF that(2)]
    show "seating ! i = seating ! j" using relabel_inv_inj [OF inv] by simp
  next
    assume "seating ! i = seating ! j"
    with I(5) [OF that(1)] I(5) [OF that(2)] show "cur ! i = cur ! j" by simp
  qed
  have "set cur = snd ` set sl"
  proof
    show "set cur \<subseteq> snd ` set sl"
    proof
      fix x assume "x \<in> set cur"
      then obtain i where i: "i < n" "cur ! i = x" using I(4) by (auto simp: in_set_conv_nth)
      from I(5) [OF i(1)] i(2) have "(seating ! i, x) \<in> set sl" by (auto dest: map_of_SomeD)
      then show "x \<in> snd ` set sl" by force
    qed
    show "snd ` set sl \<subseteq> set cur"
    proof
      fix x assume "x \<in> snd ` set sl"
      then obtain a where a: "(a, x) \<in> set sl" by auto
      then have "a \<in> set (take n seating)" using I(3) by force
      then obtain i where i: "i < n" "i < length seating" "seating ! i = a"
        by (auto simp: in_set_conv_nth)
      from a I(1) have "map_of sl a = Some x" by simp
      with I(5) [OF i(1)] i(3) have "cur ! i = x" by simp
      with i(1) I(4) show "x \<in> set cur" by (auto simp: in_set_conv_nth)
    qed
  qed
  also have "\<dots> = set (map snd sl)" by simp
  also have "\<dots> = {0..<length sl}" unfolding I(2) by simp
  finally have "set cur = {0..<card (set (take n seating))}" using k by simp
  with res I(4) eq show ?thesis by blast
qed

lemma foldl_d_add_Some:
  "foldl d_add (Some a) (map Some xs) = Some (a + sum_list xs)"
  by (induction xs arbitrary: a) (simp_all add: d_add_def add.assoc)

lemma vector_mean_finite:
  "xs \<noteq> [] \<Longrightarrow> vector_mean (map Some xs) = Inr (Some (sum_list xs / real (length xs)))"
  by (simp add: vector_mean_def vector_sum_def foldl_d_add_Some fdiv_def)

lemma ex_fields2:
  "seating_arrangement example_chain2 = [Suc 0, Suc 0]"
  "parameters example_chain2 = [Suc 0 \<mapsto> example_params]"
  "pRT_samples example_chain2 = [[[], [], []]]"
  "num_items example_inputs = Suc (Suc 0)"
  "num_students example_inputs = Suc 0"
  "recall_sequences example_inputs = [[True, False, True]]"
  "item_sequences example_inputs = [[0, Suc 0, 0]]"
  by (simp_all add: example_chain2_def example_chain1_def init_chain_def example_inputs_def
      empty_chain_def upt_rec numeral_eq_Suc)

lemma ex_init_p_hat: "init_p_hat example_chain2 = [Suc 0 \<mapsto> Some (1 / 2)]"
  by (rule ext) (simp add: init_p_hat_def ex_fields2 example_params_def)

lemma ex_relabel: "relabel (Suc (Suc 0)) [Suc 0, Suc 0] = Inr [0, 0]"
  by (simp add: relabel_def relabel_step_def upt_rec)

lemma ex_predict:
  "\<exists>samples. predict_student example_inputs example_chain2 (Inr [[[], [], []]]) 0 = Inr samples"
  by (simp add: predict_student_def ex_fields2 ex_init_p_hat predict_step_def upt_rec numeral_eq_Suc
      update_p_hat_def fdiv_def example_params_def)

lemma ex_record:
  "\<exists>c'. record_sample example_inputs (-3) example_chain2 = Inr c'"
proof -
  from ex_predict obtain samples where
    "predict_student example_inputs example_chain2 (Inr [[[], [], []]]) 0 = Inr samples" by blast
  then show ?thesis
    by (simp add: record_sample_def ex_fields2 ex_relabel)
qed

lemma foldl_upt_Suc: "foldl f a [0..<Suc n] = f (foldl f a [0..<n]) n"
  by simp

lemma predict_step_Inl [simp]: "predict_step d c s (Inl e) t = Inl e"
  by (simp add: predict_step_def)

lemma predict_student_Inl [simp]: "predict_student d c (Inl e) s = Inl e"
  by (simp add: predict_student_def)

lemma predict_step_Inr:
  assumes "predict_step d c s (Inr (row, ph)) t = Inr (row', ph')"
  shows "\<exists>x. row' = row[t := row ! t @ [x]]"
  using assms
  by (auto simp: predict_step_def Let_def split: if_splits option.splits)

lemma predict_loop:
  "foldl (predict_step d c s) (Inr (row, ph)) [0..<n] = Inr (row', ph') \<Longrightarrow> n \<le> length row \<Longrightarrow>
   length row' = length row \<and> (\<forall>t<n. length (row' ! t) = Suc (length (row ! t))) \<and>
   (\<forall>t. n \<le> t \<longrightarrow> row' ! t = row ! t)"
proof (induction n arbitrary: row' ph')
  case 0
  then show ?case by simp
next
  case (Suc n)
  let ?inner = "foldl (predict_step d c s) (Inr (row, ph)) [0..<n]"
  from Suc.prems(1) have st: "predict_step d c s ?inner n = Inr (row', ph')" by simp
  then obtain r1 p1 where inner: "?inner = Inr (r1, p1)"
    by (cases ?inner) auto
  from Suc.IH [OF inner] Suc.prems(2) have IH: "length r1 = length row"
    "\<And>t. t < n \<Longrightarrow> length (r1 ! t) = Suc (length (row ! t))"
    "\<And>t. n \<le> t \<Longrightarrow> r1 ! t = row ! t" by simp_all
  from st inner obtain x where x: "row' = r1[n := r1 ! n @ [x]]"
    using predict_step_Inr by metis
  have n: "n < length r1" using IH(1) Suc.prems(2) by simp
  show ?case
  proof (intro conjI allI impI)
    show "length row' = length row" using x IH(1) by simp
  next
    fix t assume "t < Suc n"
    show "length (row' ! t) = Suc (length (row ! t))"
    proof (cases "t = n")
      case True
      with x n IH(3) [of n] show ?thesis by simp
    next
      case False
      with \<open>t < Suc n\<close> have "t < n" by simp
      with x IH(2) [of t] False show ?thesis by simp
    qed
  next
    fix t assume "Suc n \<le> t"
    then show "row' ! t = row ! t" using x IH(3) [of t] by simp
  qed
qed

lemma predict_students_loop:
  "foldl (predict_student d c) (Inr samples) [0..<m] = Inr samples' \<Longrightarrow> m \<le> num_students d \<Longrightarrow>
   samples_shape d samples \<Longrightarrow>
   samples_shape d samples' \<and>
   (\<forall>s<m. \<forall>t<length (recall_sequences d ! s).
       length (samples' ! s ! t) = Suc (length (samples ! s ! t))) \<and>
   (\<forall>s. m \<le> s \<longrightarrow> samples' ! s = samples ! s)"
proof (induction m arbitrary: samples')
  case 0
  then show ?case by simp
next
  case (Suc m)
  let ?inner = "foldl (predict_student d c) (Inr samples) [0..<m]"
  from Suc.prems(1) have st: "predict_student d c ?inner m = Inr samples'" by simp
  then obtain s1 where inner: "?inner = Inr s1" by (cases ?inner) auto
  from Suc.IH [OF inner] Suc.prems(2,3) have IH: "samples_shape d s1"
    "\<And>s t. s < m \<Longrightarrow> t < length (recall_sequences d ! s) \<Longrightarrow>
       length (s1 ! s ! t) = Suc (length (samples ! s ! t))"
    "\<And>s. m \<le> s \<Longrightarrow> s1 ! s = samples ! s" by simp_all
  from Suc.prems(2) have m: "m < num_students d" by simp
  from IH(1) m have len: "length s1 = num_students d"
    "length (s1 ! m) = length (recall_sequences d ! m)"
    "\<And>s. s < num_students d \<Longrightarrow> length (s1 ! s) = length (recall_sequences d ! s)"
    by (simp_all add: samples_shape_def)
  from st inner obtain row p where
    loop: "foldl (predict_step d c m) (Inr (s1 ! m, init_p_hat c))
             [0..<length (recall_sequences d ! m)] = Inr (row, p)"
    and res: "samples' = s1[m := row]"
    by (auto simp: predict_student_def split: if_splits sum.splits)
  from predict_loop [OF loop] len(2) have row: "length row = length (s1 ! m)"
    "\<And>t. t < length (recall_sequences d ! m) \<Longrightarrow> length (row ! t) = Suc (length (s1 ! m ! t))"
    by simp_all
  show ?case
  proof (intro conjI allI impI)
    have "length (s1[m := row] ! s) = length (recall_sequences d ! s)"
      if "s < num_students d" for s
      using that len row(1) by (cases "s = m") simp_all
    then show "samples_shape d samples'"
      unfolding samples_shape_def res using len(1) by simp
  next
    fix s t assume s: "s < Suc m" and t: "t < length (recall_sequences d ! s)"
    show "length (samples' ! s ! t) = Suc (length (samples ! s ! t))"
    proof (cases "s = m")
      case True
      with res len(1) m row(2) [of t] t IH(3) [of m] show ?thesis by simp
    next
      case False
      with s have "s < m" by simp
      with res False IH(2) [OF _ t] show ?thesis by simp
    qed
  next
    fix s assume "Suc m \<le> s"
    then show "samples' ! s = samples ! s" using res IH(3) [of s] by simp
  qed
qed

lemma record_sample_appends:
  assumes "record_sample d train_ll c = Inr c'" and "samples_shape d (pRT_samples c)"
  shows "samples_shape d (pRT_samples c')"
    and "\<And>s t. s < num_students d \<Longrightarrow> t < length (recall_sequences d ! s) \<Longrightarrow>
           length (pRT_samples c' ! s ! t) = Suc (length (pRT_samples c ! s ! t))"
proof -
  from assms(1) obtain samples where
    loop: "foldl (predict_student d c) (Inr (pRT_samples c)) [0..<num_students d] = Inr samples"
    and c': "pRT_samples c' = samples"
    by (auto simp: record_sample_def split: sum.splits)
  from predict_students_loop [OF loop order_refl assms(2)] c'
  show "samples_shape d (pRT_samples c')"
    and "\<And>s t. s < num_students d \<Longrightarrow> t < length (recall_sequences d ! s) \<Longrightarrow>
           length (pRT_samples c' ! s ! t) = Suc (length (pRT_samples c ! s ! t))"
    by simp_all
qed

lemma init_chain_shape: "samples_shape d (pRT_samples (init_chain d))"
  by (simp add: samples_shape_def init_chain_def)

lemma belief_append:
  "belief prm recall (xs @ [x]) p0 = Option.bind (belief prm recall xs p0) (update_p_hat prm (recall x))"
  by (simp add: belief_def)

lemma predict_loop_values:
  "foldl (predict_step d c s) (Inr (row, init_p_hat c)) [0..<n] = Inr (row', ph) \<Longrightarrow>
   n \<le> length row \<Longrightarrow>
   (\<forall>t<n. row' ! t = row ! t @ [predicted_recall d c s t]) \<and>
   (\<forall>t. ph t = map_option
      (\<lambda>prm. belief prm (\<lambda>tr. recall_sequences d ! s ! tr)
         (filter (\<lambda>tr. seating_arrangement c ! (item_sequences d ! s ! tr) = t) [0..<n])
         (Some (psi prm)))
      (parameters c t))"
proof (induction n arbitrary: row' ph)
  case 0
  then show ?case by (auto simp: init_p_hat_def belief_def map_option_case split: option.splits)
next
  case (Suc n)
  let ?inner = "foldl (predict_step d c s) (Inr (row, init_p_hat c)) [0..<n]"
  let ?seat = "\<lambda>tr. seating_arrangement c ! (item_sequences d ! s ! tr)"
  let ?rec = "\<lambda>tr. recall_sequences d ! s ! tr"
  from Suc.prems(1) have st: "predict_step d c s ?inner n = Inr (row', ph)" by simp
  then obtain r1 p1 where inner: "?inner = Inr (r1, p1)" by (cases ?inner) auto
  from Suc.IH [OF inner] Suc.prems(2) have IH:
    "\<And>t. t < n \<Longrightarrow> r1 ! t = row ! t @ [predicted_recall d c s t]"
    "\<And>t. p1 t = map_option
      (\<lambda>prm. belief prm ?rec (filter (\<lambda>tr. ?seat tr = t) [0..<n]) (Some (psi prm)))
      (parameters c t)" by simp_all
  from predict_loop [OF inner] Suc.prems(2) have L: "length r1 = length row" "r1 ! n = row ! n"
    by simp_all
  from st inner obtain prm cur where
    prm: "parameters c (?seat n) = Some prm"
    and cur: "p1 (?seat n) = Some cur"
    and row': "row' = r1[n := r1 ! n @ [map_option (pRT prm) cur]]"
    and ph: "ph = p1(?seat n \<mapsto> Option.bind cur (update_p_hat prm (?rec n)))"
    by (auto simp: predict_step_def Let_def split: if_splits option.splits)
  from IH(2) [of "?seat n"] cur prm
  have c: "cur = belief prm ?rec (filter (\<lambda>tr. ?seat tr = ?seat n) [0..<n]) (Some (psi prm))"
    by simp
  with prm have v: "map_option (pRT prm) cur = predicted_recall d c s n"
    by (simp add: predicted_recall_def Let_def)
  have n: "n < length r1" using L(1) Suc.prems(2) by simp
  have rows: "row' ! t = row ! t @ [predicted_recall d c s t]" if "t < Suc n" for t
  proof (cases "t = n")
    case True
    with row' n v L(2) show ?thesis by simp
  next
    case False
    with that have "t < n" by simp
    with row' IH(1) [of t] False show ?thesis by simp
  qed
  have "ph t = map_option
      (\<lambda>prm. belief prm ?rec (filter (\<lambda>tr. ?seat tr = t) [0..<Suc n]) (Some (psi prm)))
      (parameters c t)" for t
  proof (cases "t = ?seat n")
    case True
    with ph prm c show ?thesis by (simp add: belief_append)
  next
    case False
    with ph IH(2) [of t] show ?thesis by simp
  qed
  with rows show ?case by blast
qed

lemma predict_students_values:
  "foldl (predict_student d c) (Inr samples) [0..<m] = Inr samples' \<Longrightarrow> m \<le> num_students d \<Longrightarrow>
   samples_shape d samples \<Longrightarrow>
   (\<forall>s<m. \<forall>t<length (recall_sequences d ! s).
       samples' ! s ! t = samples ! s ! t @ [predicted_recall d c s t])"
proof (induction m arbitrary: samples')
  case 0
  then show ?case by simp
next
  case (Suc m)
  let ?inner = "foldl (predict_student d c) (Inr samples) [0..<m]"
  from Suc.prems(1) have st: "predict_student d c ?inner m = Inr samples'" by simp
  then obtain s1 where inner: "?inner = Inr s1" by (cases ?inner) auto
  from Suc.prems(2) have m: "m < num_students d" "m \<le> num_students d" by simp_all
  from Suc.IH [OF inner m(2) Suc.prems(3)] have IH:
    "\<And>s t. s < m \<Longrightarrow> t < length (recall_sequences d ! s) \<Longrightarrow>
       s1 ! s ! t = samples ! s ! t @ [predicted_recall d c s t]" by simp
  from predict_students_loop [OF inner m(2) Suc.prems(3)] have sh: "samples_shape d s1"
    and same: "s1 ! m = samples ! m" by simp_all
  from sh m have len: "length s1 = num_students d"
    "length (s1 ! m) = length (recall_sequences d ! m)"
    by (simp_all add: samples_shape_def)
  from st inner obtain row p where
    loop: "foldl (predict_step d c m) (Inr (s1 ! m, init_p_hat c))
             [0..<length (recall_sequences d ! m)] = Inr (row, p)"
    and res: "samples' = s1[m := row]"
    by (auto simp: predict_student_def split: if_splits sum.splits)
  from predict_loop_values [OF loop] len(2) have row:
    "\<And>t. t < length (recall_sequences d ! m) \<Longrightarrow> row ! t = s1 ! m ! t @ [predicted_recall d c m t]"
    by simp
  show ?case
  proof (intro allI impI)
    fix s t assume s: "s < Suc m" and t: "t < length (recall_sequences d ! s)"
    show "samples' ! s ! t = samples ! s ! t @ [predicted_recall d c s t]"
    proof (cases "s = m")
      case True
      with res len(1) m(1) row [of t] t same show ?thesis by simp
    next
      case False
      with s have "s < m" by simp
      with res False IH [OF _ t] show ?thesis by simp
    qed
  qed
qed

lemma record_sample_values:
  assumes "record_sample d train_ll c = Inr c'" and "samples_shape d (pRT_samples c)"
    and "s < num_students d" and "t < length (recall_sequences d ! s)"
  shows "pRT_samples c' ! s ! t = pRT_samples c ! s ! t @ [predicted_recall d c s t]"
proof -
  from assms(1) obtain samples where
    loop: "foldl (predict_student d c) (Inr (pRT_samples c)) [0..<num_students d] = Inr samples"
    and c': "pRT_samples c' = samples"
    by (auto simp: record_sample_def split: sum.splits)
  from predict_students_values [OF loop order_refl assms(2)] c' assms(3,4)
  show ?thesis by simp
qed

lemma ex10_fields:
  "seating_arrangement example_chain10 = [Suc 0, Suc 0]"
  "parameters example_chain10 = [Suc 0 \<mapsto> example_params]"
  "pRT_samples example_chain10 = [[[Some (1 / 8)], [Some (1 / 24)], [Some (1 / 104)]]]"
  by (simp_all add: example_chain10_def ex_fields2)

lemma ex10_init_p_hat: "init_p_hat example_chain10 = [Suc 0 \<mapsto> Some (1 / 2)]"
  by (rule ext) (simp add: init_p_hat_def ex10_fields example_params_def)

lemma ex10_record_value:
  "record_sample example_inputs (-3) example_chain10 =
     Inr (example_chain10\<lparr>train_ll_samples := train_ll_samples example_chain10 @ [-3],
            skill_label_samples := skill_label_samples example_chain10 @ [[0, 0]],
            pRT_samples := [[[Some (1 / 8), Some (3 / 8)], [Some (1 / 24), Some (11 / 24)],
                             [Some (1 / 104), Some (49 / 104)]]]\<rparr>)"
  by (simp add: record_sample_def ex_fields2 ex10_fields ex_relabel
      predict_student_def ex10_init_p_hat predict_step_def upt_rec
      numeral_eq_Suc update_p_hat_def fdiv_def example_params_def pRT_def)

lemma ex10_record:
  "\<exists>c'. record_sample example_inputs (-3) example_chain10 = Inr c'"
  unfolding ex10_record_value by blast

lemma ex10_predicted: "predicted_recall example_inputs example_chain10 0 (Suc 0) = Some (11 / 24)"
  by (simp add: predicted_recall_def ex_fields2 ex10_fields belief_def update_p_hat_def fdiv_def
      pRT_def example_params_def)

lemma dom_init_p_hat: "dom (init_p_hat c) = dom (parameters c)"
  by (auto simp: init_p_hat_def dom_def)

lemma predict_loop_returns:
  "n \<le> length (recall_sequences d ! s) \<Longrightarrow>
   \<forall>t<n. t < length (item_sequences d ! s) \<and>
      item_sequences d ! s ! t < length (seating_arrangement c) \<and>
      parameters c (seating_arrangement c ! (item_sequences d ! s ! t)) \<noteq> None \<Longrightarrow>
   dom ph = dom (parameters c) \<Longrightarrow>
   \<exists>row' ph'. foldl (predict_step d c s) (Inr (row, ph)) [0..<n] = Inr (row', ph') \<and>
      dom ph' = dom (parameters c)"
proof (induction n)
  case 0
  then show ?case by simp
next
  case (Suc n)
  let ?seat = "seating_arrangement c ! (item_sequences d ! s ! n)"
  from Suc.prems have "n \<le> length (recall_sequences d ! s)"
    "\<forall>t<n. t < length (item_sequences d ! s) \<and>
      item_sequences d ! s ! t < length (seating_arrangement c) \<and>
      parameters c (seating_arrangement c ! (item_sequences d ! s ! t)) \<noteq> None" by simp_all
  from Suc.IH [OF this Suc.prems(3)] obtain r1 p1 where
    inner: "foldl (predict_step d c s) (Inr (row, ph)) [0..<n] = Inr (r1, p1)"
    and dm: "dom p1 = dom (parameters c)" by blast
  from Suc.prems(2) have rng: "n < length (item_sequences d ! s)"
    "item_sequences d ! s ! n < length (seating_arrangement c)"
    and "parameters c ?seat \<noteq> None" by simp_all
  then obtain prm where prm: "parameters c ?seat = Some prm" by blast
  with dm have "?seat \<in> dom p1" by blast
  then obtain cur where cur: "p1 ?seat = Some cur" by blast
  let ?p = "p1(?seat \<mapsto> Option.bind cur (update_p_hat prm (recall_sequences d ! s ! n)))"
  have step: "predict_step d c s (Inr (r1, p1)) n =
      Inr (r1[n := r1 ! n @ [map_option (pRT prm) cur]], ?p)"
    using rng prm cur by (simp add: predict_step_def Let_def)
  have "dom ?p = dom (parameters c)" using dm prm by auto
  with inner step show ?case by simp
qed

lemma predict_students_returns:
  "m \<le> num_students d \<Longrightarrow> can_predict d c \<Longrightarrow>
   \<exists>samples'. foldl (predict_student d c) (Inr samples) [0..<m] = Inr samples'"
proof (induction m)
  case 0
  then show ?case by simp
next
  case (Suc m)
  then obtain s1 where inner: "foldl (predict_student d c) (Inr samples) [0..<m] = Inr s1"
    by auto
  from Suc.prems have m: "m < num_students d" by simp
  with Suc.prems(2) have rng: "m < length (recall_sequences d)" "m < length (item_sequences d)"
    and tr: "\<forall>t<length (recall_sequences d ! m). t < length (item_sequences d ! m) \<and>
      item_sequences d ! m ! t < length (seating_arrangement c) \<and>
      parameters c (seating_arrangement c ! (item_sequences d ! m ! t)) \<noteq> None"
    by (simp_all add: can_predict_def)
  from predict_loop_returns [OF order_refl tr dom_init_p_hat, of "s1 ! m"] obtain row' ph' where
    "foldl (predict_step d c m) (Inr (s1 ! m, init_p_hat c))
       [0..<length (recall_sequences d ! m)] = Inr (row', ph')" by blast
  with rng have "predict_student d c (Inr s1) m = Inr (s1[m := row'])"
    by (simp add: predict_student_def)
  with inner show ?case by simp
qed

lemma ex8_fields:
  "seating_arrangement example_chain8 = [5, 2, 5]"
  "parameters example_chain8 = [5 \<mapsto> example_params, 2 \<mapsto> example_params]"
  "skill_label_samples example_chain8 = []"
  "num_items example_inputs3 = 3"
  "num_students example_inputs3 = Suc 0"
  "recall_sequences example_inputs3 = [[True, False, True]]"
  "item_sequences example_inputs3 = [[0, Suc 0, Suc (Suc 0)]]"
  by (simp_all add: example_chain8_def init_chain_def example_inputs3_def empty_chain_def
      numeral_2_eq_2)

lemma ex8_relabel: "relabel 3 [5, 2, 5] = Inr [0, Suc 0, 0]"
  by (simp add: relabel_def relabel_step_def upt_rec numeral_eq_Suc)

lemma ex8_can_predict: "can_predict example_inputs3 example_chain8"
  by (simp add: can_predict_def ex8_fields less_Suc_eq numeral_eq_Suc all_conj_distrib)

text \<open>
  C9. The relabelling loop of \<open>record_sample\<close> returns a vector with one id per item,
  which uses the ids \<open>0, ..., k - 1\<close>, where \<open>k\<close> is the number of distinct skills in
  the seating arrangement, and in which two items get the same id exactly when they sit
  at the same skill. This is the vector that \<open>record_sample\<close> appends to
  \<open>skill_label_samples\<close> when it returns, and it returns whenever every index of its
  prediction loop is in range (\<open>can_predict\<close>).
\<close>

theorem record_sample_relabel_dense:
  assumes "length (seating_arrangement c) = num_items d"
  shows "\<exists>cur. relabel (num_items d) (seating_arrangement c) = Inr cur \<and>
           length cur = num_items d \<and>
           set cur = {0..<card (set (seating_arrangement c))} \<and>
           (\<forall>i<num_items d. \<forall>j<num_items d.
              cur ! i = cur ! j \<longleftrightarrow> seating_arrangement c ! i = seating_arrangement c ! j) \<and>
           (\<forall>c'. record_sample d train_ll c = Inr c' \<longrightarrow>
              skill_label_samples c' = skill_label_samples c @ [cur]) \<and>
           (can_predict d c \<longrightarrow> (\<exists>c'. record_sample d train_ll c = Inr c'))"
proof -
  from assms have "num_items d \<le> length (seating_arrangement c)" by simp
  from relabel_dense [OF this] obtain cur where
    cur: "relabel (num_items d) (seating_arrangement c) = Inr cur" "length cur = num_items d"
      "set cur = {0..<card (set (take (num_items d) (seating_arrangement c)))}"
      "\<forall>i<num_items d. \<forall>j<num_items d.
              cur ! i = cur ! j \<longleftrightarrow> seating_arrangement c ! i = seating_arrangement c ! j"
    by blast
  from cur(3) assms have st: "set cur = {0..<card (set (seating_arrangement c))}" by simp
  have app: "skill_label_samples c' = skill_label_samples c @ [cur]"
    if "record_sample d train_ll c = Inr c'" for c'
    using that cur(1) by (auto simp: record_sample_def split: sum.splits)
  have ret: "\<exists>c'. record_sample d train_ll c = Inr c'" if "can_predict d c"
  proof -
    from predict_students_returns [OF order_refl that, of "pRT_samples c"] obtain samples where
      "foldl (predict_student d c) (Inr (pRT_samples c)) [0..<num_students d] = Inr samples"
      by blast
    with cur(1) show ?thesis by (simp add: record_sample_def)
  qed
  from cur(1,2) st cur(4) app ret show ?thesis by blast
qed

theorem record_sample_relabel_dense_witness:
  "\<exists>c'. record_sample example_inputs3 (-3) example_chain8 = Inr c' \<and>
        skill_label_samples c' = [[0, 1, 0]] \<and>
        card (set (seating_arrangement example_chain8)) = 2 \<and>
        set [0, 1, 0] = {0..<card (set (seating_arrangement example_chain8))}"
proof -
  have len: "length (seating_arrangement example_chain8) = num_items example_inputs3"
    by (simp add: ex8_fields)
  from record_sample_relabel_dense [OF len, of "-3"] obtain cur where
    cur: "relabel (num_items example_inputs3) (seating_arrangement example_chain8) = Inr cur"
      "set cur = {0..<card (set (seating_arrangement example_chain8))}"
      "\<forall>c'. record_sample example_inputs3 (-3) example_chain8 = Inr c' \<longrightarrow>
              skill_label_samples c' = skill_label_samples example_chain8 @ [cur]"
      "can_predict example_inputs3 example_chain8 \<longrightarrow>
         (\<exists>c'. record_sample example_inputs3 (-3) example_chain8 = Inr c')"
    by blast
  from cur(4) ex8_can_predict obtain c' where
    c': "record_sample example_inputs3 (-3) example_chain8 = Inr c'" by blast
  from cur(1) ex8_relabel have eq: "cur = [0, 1, 0]" by (simp add: ex8_fields)
  from cur(3) c' eq have stored: "skill_label_samples c' = [[0, 1, 0]]"
    by (simp add: ex8_fields)
  have k: "card (set (seating_arrangement example_chain8)) = 2"
    by (simp add: ex8_fields card_insert_if)
  from c' stored k cur(2) eq show ?thesis by blast
qed

text \<open>
  C8. \<open>get_estimated_recall_prob\<close> fails exactly when the trial has no recorded sample
  (the trial does not exist, or its sample list is empty), and otherwise returns the
  arithmetic mean of the trial's samples. In the chain as constructed it fails for
  every trial; each successful \<open>record_sample\<close> adds one sample to every trial of
  every student, after which the query returns. The sample it adds to a trial is the
  prediction of the model at that trial, \<open>predicted_recall\<close>, so that after the call
  the query returns the mean of the samples recorded before and that prediction.
\<close>

theorem get_estimated_recall_prob_mean:
  "((\<exists>e. get_estimated_recall_prob c student trial = Inl e) \<longleftrightarrow>
      \<not> (student < length (pRT_samples c) \<and> trial < length (pRT_samples c ! student)) \<or>
      pRT_samples c ! student ! trial = []) \<and>
   (\<forall>xs. student < length (pRT_samples c) \<and> trial < length (pRT_samples c ! student) \<and>
         pRT_samples c ! student ! trial = map Some xs \<and> xs \<noteq> [] \<longrightarrow>
         get_estimated_recall_prob c student trial = Inr (Some (sum_list xs / real (length xs)))) \<and>
   (\<forall>d. \<exists>e. get_estimated_recall_prob (init_chain d) student trial = Inl e) \<and>
   (\<forall>d train_ll c'. samples_shape d (pRT_samples c) \<and> student < num_students d \<and>
         trial < length (recall_sequences d ! student) \<and>
         record_sample d train_ll c = Inr c' \<longrightarrow>
         length (pRT_samples c' ! student ! trial) = Suc (length (pRT_samples c ! student ! trial)) \<and>
         (\<exists>x. get_estimated_recall_prob c' student trial = Inr x) \<and>
         pRT_samples c' ! student ! trial =
           pRT_samples c ! student ! trial @ [predicted_recall d c student trial] \<and>
         (\<forall>xs y. pRT_samples c ! student ! trial = map Some xs \<and>
            predicted_recall d c student trial = Some y \<longrightarrow>
            get_estimated_recall_prob c' student trial =
              Inr (Some ((sum_list xs + y) / real (Suc (length xs))))))"
proof -
  have a: "(\<exists>e. get_estimated_recall_prob c student trial = Inl e) \<longleftrightarrow>
      \<not> (student < length (pRT_samples c) \<and> trial < length (pRT_samples c ! student)) \<or>
      pRT_samples c ! student ! trial = []"
    by (auto simp: get_estimated_recall_prob_def vector_mean_def)
  have b: "get_estimated_recall_prob c student trial = Inr (Some (sum_list xs / real (length xs)))"
    if "student < length (pRT_samples c) \<and> trial < length (pRT_samples c ! student) \<and>
         pRT_samples c ! student ! trial = map Some xs \<and> xs \<noteq> []" for xs
    using that vector_mean_finite [of xs] by (simp add: get_estimated_recall_prob_def)
  have i: "\<exists>e. get_estimated_recall_prob (init_chain d) student trial = Inl e" for d
    by (simp add: get_estimated_recall_prob_def init_chain_def)
  have r: "length (pRT_samples c' ! student ! trial) = Suc (length (pRT_samples c ! student ! trial)) \<and>
         (\<exists>x. get_estimated_recall_prob c' student trial = Inr x) \<and>
         pRT_samples c' ! student ! trial =
           pRT_samples c ! student ! trial @ [predicted_recall d c student trial] \<and>
         (\<forall>xs y. pRT_samples c ! student ! trial = map Some xs \<and>
            predicted_recall d c student trial = Some y \<longrightarrow>
            get_estimated_recall_prob c' student trial =
              Inr (Some ((sum_list xs + y) / real (Suc (length xs)))))"
    if "samples_shape d (pRT_samples c) \<and> student < num_students d \<and>
         trial < length (recall_sequences d ! student) \<and>
         record_sample d train_ll c = Inr c'" for d train_ll c'
  proof -
    from that have h: "samples_shape d (pRT_samples c)" "student < num_students d"
      "trial < length (recall_sequences d ! student)" "record_sample d train_ll c = Inr c'"
      by blast+
    note A = record_sample_appends [OF h(4,1)]
    from A(2) [OF h(2,3)] have len: "length (pRT_samples c' ! student ! trial) =
        Suc (length (pRT_samples c ! student ! trial))" .
    then have ne: "pRT_samples c' ! student ! trial \<noteq> []" by auto
    from A(1) h(2,3) have "student < length (pRT_samples c')"
      "trial < length (pRT_samples c' ! student)" by (simp_all add: samples_shape_def)
    note rng = this
    with ne have ex: "\<exists>x. get_estimated_recall_prob c' student trial = Inr x"
      by (simp add: get_estimated_recall_prob_def vector_mean_def)
    note val = record_sample_values [OF h(4,1,2,3)]
    have mean: "get_estimated_recall_prob c' student trial =
        Inr (Some ((sum_list xs + y) / real (Suc (length xs))))"
      if "pRT_samples c ! student ! trial = map Some xs \<and>
          predicted_recall d c student trial = Some y" for xs y
    proof -
      from that val have "pRT_samples c' ! student ! trial = map Some (xs @ [y])" by simp
      with rng vector_mean_finite [of "xs @ [y]"] show ?thesis
        by (simp add: get_estimated_recall_prob_def)
    qed
    from len ex val mean show ?thesis by blast
  qed
  from a b i r show ?thesis by blast
qed

theorem get_estimated_recall_prob_mean_witness:
  "get_estimated_recall_prob (empty_chain\<lparr>pRT_samples := [[[Some (1 / 2), Some (1 / 4)], []]]\<rparr>) 0 0
     = Inr (Some (3 / 8)) \<and>
   get_estimated_recall_prob (empty_chain\<lparr>pRT_samples := [[[Some (1 / 2), Some (1 / 4)], []]]\<rparr>) 0 1
     = Inl AssertionFailure \<and>
   (\<exists>c' x. record_sample example_inputs (-3) example_chain2 = Inr c' \<and>
      get_estimated_recall_prob c' 0 0 = Inr x) \<and>
   (\<exists>c'. record_sample example_inputs (-3) example_chain10 = Inr c' \<and>
      pRT_samples c' ! 0 ! 1 = [Some (1 / 24), Some (11 / 24)] \<and>
      get_estimated_recall_prob c' 0 1 = Inr (Some (1 / 4)))"
proof -
  let ?c = "empty_chain\<lparr>pRT_samples := [[[Some (1 / 2), Some (1 / 4)], []]]\<rparr>"
  note T = get_estimated_recall_prob_mean [of ?c 0]
  have "0 < length (pRT_samples ?c) \<and> 0 < length (pRT_samples ?c ! 0) \<and>
        pRT_samples ?c ! 0 ! 0 = map Some [1 / 2, 1 / 4] \<and> [1 / 2, 1 / 4 :: real] \<noteq> []"
    by simp
  with T [of 0] have "get_estimated_recall_prob ?c 0 0
      = Inr (Some (sum_list [1 / 2, 1 / 4] / real (length [1 / 2, 1 / 4 :: real])))"
    by blast
  then have one: "get_estimated_recall_prob ?c 0 0 = Inr (Some (3 / 8))" by simp
  have two: "get_estimated_recall_prob ?c 0 1 = Inl AssertionFailure"
    by (simp add: get_estimated_recall_prob_def)
  from ex_record obtain c' where c': "record_sample example_inputs (-3) example_chain2 = Inr c'"
    by blast
  have "samples_shape example_inputs (pRT_samples example_chain2) \<and>
        0 < num_students example_inputs \<and> 0 < length (recall_sequences example_inputs ! 0)"
    by (simp add: samples_shape_def ex_fields2)
  with get_estimated_recall_prob_mean [of example_chain2 0 0] c'
  have three: "\<exists>x. get_estimated_recall_prob c' 0 0 = Inr x" by blast
  from ex10_record obtain c10 where
    c10: "record_sample example_inputs (-3) example_chain10 = Inr c10" by blast
  have hyp: "samples_shape example_inputs (pRT_samples example_chain10) \<and>
        0 < num_students example_inputs \<and> Suc 0 < length (recall_sequences example_inputs ! 0) \<and>
        record_sample example_inputs (-3) example_chain10 = Inr c10"
    using c10 by (simp add: samples_shape_def ex_fields2 ex10_fields)
  have old: "pRT_samples example_chain10 ! 0 ! Suc 0 = map Some [1 / 24]"
    by (simp add: ex10_fields)
  note T10 = get_estimated_recall_prob_mean [of example_chain10 0 "Suc 0", THEN conjunct2,
      THEN conjunct2, THEN conjunct2, THEN spec, THEN spec, THEN spec, THEN mp, OF hyp]
  from T10 have app: "pRT_samples c10 ! 0 ! Suc 0 =
      pRT_samples example_chain10 ! 0 ! Suc 0 @ [predicted_recall example_inputs example_chain10 0 (Suc 0)]"
    by blast
  from T10 old ex10_predicted have "get_estimated_recall_prob c10 0 (Suc 0) =
      Inr (Some ((sum_list [1 / 24] + 11 / 24) / real (Suc (length [1 / 24 :: real]))))"
    by blast
  then have mean: "get_estimated_recall_prob c10 0 1 = Inr (Some (1 / 4))" by simp
  from app old ex10_predicted have "pRT_samples c10 ! 0 ! 1 = [Some (1 / 24), Some (11 / 24)]"
    by simp
  with c10 mean have four: "\<exists>c'. record_sample example_inputs (-3) example_chain10 = Inr c' \<and>
      pRT_samples c' ! 0 ! 1 = [Some (1 / 24), Some (11 / 24)] \<and>
      get_estimated_recall_prob c' 0 1 = Inr (Some (1 / 4))" by blast
  from one two three c' four show ?thesis by blast
qed

subsection \<open>The agreement statistic K\<close>

lemma map_of_bump:
  "map_of (map (\<lambda>(l, n). if l = x then (l, n + 1) else (l, n)) counts) y =
     (if y = x then map_option (\<lambda>n. n + (1::int)) (map_of counts x) else map_of counts y)"
  by (induction counts) auto

lemma fst_bump:
  "map fst (map (\<lambda>(l, n::int). if l = x then (l, n + 1) else (l, n)) counts) = map fst counts"
  by (induction counts) auto

lemma count_step_inv:
  assumes inv: "count_inv d counts mx"
    and j: "j < length (seating_arrangement c)" "j < length (provided_skill_assignments d)"
  shows "\<exists>counts' mx'. count_step d c item t (Inr (counts, mx)) j = Inr (counts', mx') \<and>
           count_inv d counts' mx'"
proof (cases "item \<noteq> j \<and> seating_arrangement c ! j = t")
  case False
  with inv j show ?thesis by (auto simp: count_step_def)
next
  case True
  let ?l = "provided_skill_assignments d ! j"
  from inv have I: "distinct (map fst counts)"
    "set (map fst counts) \<subseteq> set (provided_skill_assignments d)"
    "\<And>l k. (l, k) \<in> set counts \<Longrightarrow> 1 \<le> k \<and> k \<le> mx" "0 \<le> mx"
    "if counts = [] then mx = 0 else mx \<in> snd ` set counts"
    by (auto simp: count_inv_def)
  have lin: "?l \<in> set (provided_skill_assignments d)" using j(2) by simp
  show ?thesis
  proof (cases "map_of counts ?l")
    case None
    then have notin: "?l \<notin> set (map fst counts)" by (simp add: map_of_eq_None_iff)
    let ?c' = "counts @ [(?l, 1)]"
    let ?mx' = "if 1 > mx then 1 else mx"
    have look: "map_of ?c' ?l = Some 1" using None by (simp add: map_add_def)
    have step: "count_step d c item t (Inr (counts, mx)) j = Inr (?c', ?mx')"
      using True j None look by (simp add: count_step_def Let_def)
    have top: "?mx' \<in> snd ` set ?c'"
    proof (cases "counts = []")
      case True
      with I(5) show ?thesis by simp
    next
      case False
      with I(5) obtain l0 where l0: "(l0, mx) \<in> set counts" by auto
      from I(3) [OF l0] have "\<not> 1 > mx" by simp
      with l0 show ?thesis by force
    qed
    have "count_inv d ?c' ?mx'"
      unfolding count_inv_def
    proof (intro conjI)
      show "distinct (map fst ?c')" using I(1) notin by simp
      show "set (map fst ?c') \<subseteq> set (provided_skill_assignments d)" using I(2) lin by simp
      show "\<forall>(l, k)\<in>set ?c'. 1 \<le> k \<and> k \<le> ?mx'" using I(3) by fastforce
      show "0 \<le> ?mx'" using I(4) by simp
      show "if ?c' = [] then ?mx' = 0 else ?mx' \<in> snd ` set ?c'" using top by simp
    qed
    with step show ?thesis by blast
  next
    case (Some k)
    let ?c' = "map (\<lambda>(l, n). if l = ?l then (l, n + 1) else (l, n)) counts"
    let ?mx' = "if k + 1 > mx then k + 1 else mx"
    have look: "map_of ?c' ?l = Some (k + 1)" using Some by (simp add: map_of_bump)
    have step: "count_step d c item t (Inr (counts, mx)) j = Inr (?c', ?mx')"
      using True j Some look by (simp add: count_step_def Let_def)
    have vals: "1 \<le> k' \<and> k' \<le> ?mx'" if "(l, k') \<in> set ?c'" for l k'
    proof -
      have "distinct (map fst ?c')" using I(1) by (simp only: fst_bump)
      from map_of_is_SomeI [OF this that] have m: "map_of ?c' l = Some k'" .
      show ?thesis
      proof (cases "l = ?l")
        case True
        with m look have "k' = k + 1" by simp
        moreover from Some have "(?l, k) \<in> set counts" by (rule map_of_SomeD)
        ultimately show ?thesis using I(3) [of ?l k] by auto
      next
        case False
        with m have "map_of counts l = Some k'" by (simp add: map_of_bump)
        then have "(l, k') \<in> set counts" by (rule map_of_SomeD)
        with I(3) [of l k'] show ?thesis by auto
      qed
    qed
    have d': "distinct (map fst ?c')"
      "set (map fst ?c') \<subseteq> set (provided_skill_assignments d)"
      using I(1,2) by (simp_all only: fst_bump)
    from Some have lk: "(?l, k) \<in> set counts" by (rule map_of_SomeD)
    then have ne: "counts \<noteq> []" by auto
    have bumped: "(?l, k + 1) \<in> set ?c'" using lk by force
    have top: "?mx' \<in> snd ` set ?c'"
    proof (cases "k + 1 > mx")
      case True
      with bumped show ?thesis by force
    next
      case False
      from I(5) ne obtain l0 where l0: "(l0, mx) \<in> set counts" by auto
      have "l0 \<noteq> ?l"
      proof
        assume "l0 = ?l"
        with l0 I(1) Some have "mx = k" by simp
        with False show False by simp
      qed
      with l0 have "(l0, mx) \<in> set ?c'" by force
      with False show ?thesis by force
    qed
    from ne have ne': "?c' \<noteq> []" by simp
    have "count_inv d ?c' ?mx'"
      unfolding count_inv_def
    proof (intro conjI)
      show "\<forall>(l, k')\<in>set ?c'. 1 \<le> k' \<and> k' \<le> ?mx'" using vals by blast
      show "0 \<le> ?mx'" using I(4) by simp
      show "if ?c' = [] then ?mx' = 0 else ?mx' \<in> snd ` set ?c'"
        using top ne' by (simp only: if_False)
    qed (rule d')+
    with step show ?thesis by blast
  qed
qed

lemma count_loop_inv:
  "m \<le> length (seating_arrangement c) \<Longrightarrow> m \<le> length (provided_skill_assignments d) \<Longrightarrow>
   \<exists>counts mx. foldl (count_step d c item t) (Inr ([], 0)) [0..<m] = Inr (counts, mx) \<and>
       count_inv d counts mx"
proof (induction m)
  case 0
  show ?case by (simp add: count_inv_def)
next
  case (Suc m)
  then obtain counts mx where
    st: "foldl (count_step d c item t) (Inr ([], 0)) [0..<m] = Inr (counts, mx)"
    and inv: "count_inv d counts mx" by auto
  from Suc.prems have "m < length (seating_arrangement c)"
    "m < length (provided_skill_assignments d)" by simp_all
  from count_step_inv [OF inv this, of item t] st show ?case by simp
qed

lemma foldl_denominator:
  "foldl (\<lambda>acc (l, k). acc + f k) a counts = a + sum_list (map (\<lambda>(l, k). f k) counts)"
  for a :: real and counts :: "(nat \<times> int) list"
  by (induction counts arbitrary: a) (auto simp: add.assoc)

lemma member_le_sum_list_real:
  "x \<in> set xs \<Longrightarrow> \<forall>y\<in>set xs. 0 \<le> y \<Longrightarrow> x \<le> sum_list xs" for x :: real
proof (induction xs)
  case Nil
  then show ?case by simp
next
  case (Cons a xs)
  have "0 \<le> sum_list xs" using Cons.prems(2) by (intro sum_list_nonneg) simp
  with Cons show ?case by auto
qed

lemma card_labels_le: "xs \<noteq> [] \<Longrightarrow> card (set xs) \<le> 1 + Max (set xs)" for xs :: "nat list"
proof -
  assume "xs \<noteq> []"
  have "set xs \<subseteq> {..Max (set xs)}" by auto
  then have "card (set xs) \<le> card {..Max (set xs)}" by (intro card_mono) simp_all
  then show ?thesis by simp
qed

lemma compute_K_range_aux:
  assumes item: "item < num_items d" and ls: "length (seating_arrangement c) = num_items d"
    and lp: "length (provided_skill_assignments d) = num_items d"
    and mode: "generative_mode \<or> seating_arrangement c ! item = UNASSIGNED d"
  shows "\<exists>K. compute_K d c item t generative_mode = Inr (Some K) \<and> 0 \<le> K \<and> K \<le> 1 \<and>
           (0 < gamma_of c \<longrightarrow> 0 < K)"
proof -
  let ?end = "if generative_mode then item else num_items d"
  let ?V = "num_expert_provided_skills d"
  let ?L = "provided_skill_assignments d ! item"
  have g0: "0 \<le> gamma_of c" by (simp add: gamma_of_def split: option.splits)
  have "?end \<le> length (seating_arrangement c)" "?end \<le> length (provided_skill_assignments d)"
    using item ls lp by auto
  from count_loop_inv [OF this] obtain counts mx where
    loop: "foldl (count_step d c item t) (Inr ([], 0)) [0..<?end] = Inr (counts, mx)"
    and inv: "count_inv d counts mx" by blast
  from inv have I: "distinct (map fst counts)"
    "set (map fst counts) \<subseteq> set (provided_skill_assignments d)"
    "if counts = [] then mx = 0 else mx \<in> snd ` set counts"
    by (auto simp: count_inv_def)
  let ?f = "\<lambda>k. gamma_of c powi (mx - k)"
  let ?num = "case map_of counts ?L of Some k \<Rightarrow> gamma_of c powi (mx - k)
              | None \<Rightarrow> gamma_of c powi mx"
  let ?a = "real (sub_size_t ?V (length counts)) * gamma_of c powi mx"
  let ?terms = "map (\<lambda>(l, k). ?f k) counts"
  let ?den = "?a + sum_list ?terms"
  have res: "compute_K d c item t generative_mode = Inr (fdiv ?num ?den)"
    using item ls lp mode loop
    by (auto simp: compute_K_def Let_def foldl_denominator)
  have f0: "0 \<le> gamma_of c powi z" for z using g0 by simp
  have num0: "0 \<le> ?num" using f0 by (simp split: option.splits)
  have a0: "0 \<le> ?a" using f0 [of mx] by simp
  have terms: "\<forall>y\<in>set ?terms. 0 \<le> y"
    using f0 by auto
  have s0: "0 \<le> sum_list ?terms"
    using terms by (intro sum_list_nonneg) blast
  have V: "1 \<le> ?V" by (simp add: num_expert_provided_skills_def)
  have den1: "1 \<le> ?den"
  proof (cases "counts = []")
    case True
    with I(3) have "mx = 0" by simp
    with True V show ?thesis by (simp add: sub_size_t_def)
  next
    case False
    with I(3) obtain l0 where "(l0, mx) \<in> set counts" by auto
    then have "?f mx \<in> set ?terms" by force
    from member_le_sum_list_real [OF this terms] have "1 \<le> sum_list ?terms" by simp
    with a0 show ?thesis by linarith
  qed
  have le: "?num \<le> ?den"
  proof (cases "map_of counts ?L")
    case (Some k)
    then have "(?L, k) \<in> set counts" by (rule map_of_SomeD)
    then have "?f k \<in> set ?terms" by force
    from member_le_sum_list_real [OF this terms] a0 Some show ?thesis by simp
  next
    case None
    then have notin: "?L \<notin> set (map fst counts)" by (simp add: map_of_eq_None_iff)
    have Lin: "?L \<in> set (provided_skill_assignments d)" using item lp by simp
    have ne: "provided_skill_assignments d \<noteq> []" using item lp by auto
    have "set (map fst counts) \<subset> set (provided_skill_assignments d)"
      using I(2) notin Lin by blast
    then have "card (set (map fst counts)) < card (set (provided_skill_assignments d))"
      by (intro psubset_card_mono) simp_all
    moreover have "card (set (map fst counts)) = length counts"
      using distinct_card [OF I(1)] by simp
    ultimately have "length counts < ?V"
      using card_labels_le [OF ne] by (simp add: num_expert_provided_skills_def)
    then have "1 \<le> real (sub_size_t ?V (length counts))" by (simp add: sub_size_t_def)
    from mult_right_mono [OF this f0 [of mx]] have "gamma_of c powi mx \<le> ?a" by simp
    with s0 None show ?thesis by simp
  qed
  from den1 have denpos: "0 < ?den" by linarith
  then have "fdiv ?num ?den = Some (?num / ?den)" by (simp add: fdiv_def)
  moreover have "0 \<le> ?num / ?den" using num0 denpos by simp
  moreover have "?num / ?den \<le> 1" using le denpos by simp
  moreover have "0 < ?num / ?den" if "0 < gamma_of c"
  proof -
    from that have "0 < ?num" by (simp split: option.splits)
    with denpos show ?thesis by simp
  qed
  ultimately show ?thesis using res by auto
qed

lemma count_loop_pure:
  assumes pure: "\<And>j. j < e \<Longrightarrow> j \<noteq> item \<Longrightarrow> seating_arrangement c ! j = t \<Longrightarrow>
                   provided_skill_assignments d ! j = L"
    and e: "e \<le> length (seating_arrangement c)" "e \<le> length (provided_skill_assignments d)"
  shows "m \<le> e \<Longrightarrow>
    foldl (count_step d c item t) (Inr ([], 0)) [0..<m] =
      Inr (if filter (\<lambda>j. j \<noteq> item \<and> seating_arrangement c ! j = t) [0..<m] = [] then []
           else [(L, int (length (filter (\<lambda>j. j \<noteq> item \<and> seating_arrangement c ! j = t) [0..<m])))],
           int (length (filter (\<lambda>j. j \<noteq> item \<and> seating_arrangement c ! j = t) [0..<m])))"
proof (induction m)
  case 0
  show ?case by simp
next
  case (Suc m)
  let ?P = "\<lambda>j. j \<noteq> item \<and> seating_arrangement c ! j = t"
  let ?n = "length (filter ?P [0..<m])"
  from Suc have IH: "foldl (count_step d c item t) (Inr ([], 0)) [0..<m] =
      Inr (if filter ?P [0..<m] = [] then [] else [(L, int ?n)], int ?n)" by simp
  from Suc.prems e have m: "m < e" "m < length (seating_arrangement c)"
    "m < length (provided_skill_assignments d)" by simp_all
  show ?case
  proof (cases "?P m")
    case False
    then have "filter ?P [0..<Suc m] = filter ?P [0..<m]" by simp
    moreover from False m have "count_step d c item t
        (Inr (if filter ?P [0..<m] = [] then [] else [(L, int ?n)], int ?n)) m
        = Inr (if filter ?P [0..<m] = [] then [] else [(L, int ?n)], int ?n)"
      by (auto simp: count_step_def)
    ultimately show ?thesis using IH by simp
  next
    case True
    then have lab: "provided_skill_assignments d ! m = L" using pure [OF m(1)] by simp
    from True have f: "filter ?P [0..<Suc m] = filter ?P [0..<m] @ [m]" by simp
    have "count_step d c item t
        (Inr (if filter ?P [0..<m] = [] then [] else [(L, int ?n)], int ?n)) m
        = Inr ([(L, int ?n + 1)], int ?n + 1)"
      using True m lab by (simp add: count_step_def Let_def)
    with IH f show ?thesis by simp
  qed
qed

lemma compute_K_pure:
  assumes item: "item < num_items d" and ls: "length (seating_arrangement c) = num_items d"
    and lp: "length (provided_skill_assignments d) = num_items d"
    and mode: "generative_mode \<or> seating_arrangement c ! item = UNASSIGNED d"
    and others: "others = filter (\<lambda>j. j \<noteq> item \<and> seating_arrangement c ! j = t)
                   [0..<(if generative_mode then item else num_items d)]"
    and ne: "others \<noteq> []"
    and pure: "\<forall>j\<in>set others. provided_skill_assignments d ! j = provided_skill_assignments d ! item"
  shows "compute_K d c item t generative_mode =
           Inr (Some (1 / (1 + real (num_expert_provided_skills d - 1) * gamma_of c ^ length others)))"
proof -
  let ?end = "if generative_mode then item else num_items d"
  let ?L = "provided_skill_assignments d ! item"
  let ?V = "num_expert_provided_skills d"
  let ?n = "length others"
  let ?g = "gamma_of c"
  have e: "?end \<le> length (seating_arrangement c)" "?end \<le> length (provided_skill_assignments d)"
    using item ls lp by auto
  have p: "provided_skill_assignments d ! j = ?L"
    if "j < ?end" "j \<noteq> item" "seating_arrangement c ! j = t" for j
    using that pure unfolding others by simp
  have ne': "filter (\<lambda>j. j \<noteq> item \<and> seating_arrangement c ! j = t) [0..<?end] \<noteq> []"
    using ne unfolding others .
  let ?P = "\<lambda>j. j \<noteq> item \<and> seating_arrangement c ! j = t"
  have cl: "foldl (count_step d c item t) (Inr ([], 0)) [0..<?end] =
      Inr (if filter ?P [0..<?end] = [] then []
           else [(?L, int (length (filter ?P [0..<?end])))],
           int (length (filter ?P [0..<?end])))"
  proof (rule count_loop_pure [where e = ?end])
    fix j assume "j < ?end" "j \<noteq> item" "seating_arrangement c ! j = t"
    then show "provided_skill_assignments d ! j = ?L" by (rule p)
  qed (use e in simp_all)
  have loop: "foldl (count_step d c item t) (Inr ([], 0)) [0..<?end] = Inr ([(?L, int ?n)], int ?n)"
    unfolding cl others using ne' by (simp only: if_False)
  have g0: "0 \<le> ?g" by (simp add: gamma_of_def split: option.splits)
  have V: "1 \<le> ?V" by (simp add: num_expert_provided_skills_def)
  have den: "real (sub_size_t ?V (Suc 0)) * ?g ^ ?n + 1 =
             1 + real (?V - 1) * ?g ^ ?n"
    using V by (simp add: sub_size_t_def)
  have "0 < 1 + real (?V - 1) * ?g ^ ?n"
    using g0 by (intro add_pos_nonneg) simp_all
  then have nz: "1 + real (?V - 1) * ?g ^ ?n \<noteq> 0" by simp
  have pre: "\<not> (\<not> generative_mode \<and> \<not> item < length (seating_arrangement c))"
    "\<not> (\<not> generative_mode \<and> seating_arrangement c ! item \<noteq> UNASSIGNED d)"
    "item < length (provided_skill_assignments d)"
    using item ls lp mode by auto
  have "compute_K d c item t generative_mode =
     Inr (fdiv (?g powi (int ?n - int ?n))
            (real (sub_size_t ?V (Suc 0)) * ?g powi int ?n + ?g powi (int ?n - int ?n)))"
    unfolding compute_K_def Let_def
    by (simp only: pre if_False if_True not_True_eq_False not_False_eq_True loop sum.case prod.case
        map_of.simps fst_conv snd_conv if_True option.case foldl.simps list.size One_nat_def add_0
        fun_upd_same)
  also have "\<dots> = Inr (fdiv 1 (real (sub_size_t ?V (Suc 0)) * ?g ^ ?n + 1))"
    by simp
  also have "\<dots> = Inr (fdiv 1 (1 + real (?V - 1) * ?g ^ ?n))"
    unfolding den ..
  also have "\<dots> = Inr (Some (1 / (1 + real (?V - 1) * ?g ^ ?n)))"
    using nz by (simp add: fdiv_def)
  finally show ?thesis .
qed

text \<open>
  C3 (amended). In exact real arithmetic: for a valid (item, table) pair \<open>compute_K\<close>
  returns a value \<open>K\<close> with \<open>0 \<le> K \<le> 1\<close>, and \<open>0 < K\<close> when \<open>gamma > 0\<close> (a finite
  \<open>log_gamma\<close>, that is \<open>beta < 1\<close>). When the \<open>n \<ge> 1\<close> other items at the table all
  share the item's expert label, \<open>K = 1 / (1 + (V - 1) * gamma ^ n)\<close> with \<open>V\<close> the
  number of expert labels; this is 1 exactly when there is a single expert label or
  \<open>gamma = 0\<close> (\<open>beta = 1\<close>).
\<close>

theorem compute_K_range:
  assumes "item < num_items d" and "length (seating_arrangement c) = num_items d"
    and "length (provided_skill_assignments d) = num_items d"
    and "generative_mode \<or> seating_arrangement c ! item = UNASSIGNED d"
  shows "\<exists>K. compute_K d c item t generative_mode = Inr (Some K) \<and> 0 \<le> K \<and> K \<le> 1 \<and>
           (0 < gamma_of c \<longrightarrow> 0 < K) \<and>
           (\<forall>lg. log_gamma c = Some lg \<longrightarrow> gamma_of c = exp lg \<and> 0 < K) \<and>
           (\<forall>others.
              others = filter (\<lambda>j. j \<noteq> item \<and> seating_arrangement c ! j = t)
                         [0..<(if generative_mode then item else num_items d)] \<and>
              others \<noteq> [] \<and>
              (\<forall>j\<in>set others.
                 provided_skill_assignments d ! j = provided_skill_assignments d ! item) \<longrightarrow>
              K = 1 / (1 + real (num_expert_provided_skills d - 1) * gamma_of c ^ length others) \<and>
              (K = 1 \<longleftrightarrow> num_expert_provided_skills d = 1 \<or> gamma_of c = 0))"
proof -
  from compute_K_range_aux [OF assms] obtain K where
    K: "compute_K d c item t generative_mode = Inr (Some K)" "0 \<le> K" "K \<le> 1"
      "0 < gamma_of c \<longrightarrow> 0 < K" by blast
  have fin: "gamma_of c = exp lg \<and> 0 < K" if "log_gamma c = Some lg" for lg
  proof -
    from that have "gamma_of c = exp lg" by (simp add: gamma_of_def)
    with K(4) show ?thesis by simp
  qed
  have "K = 1 / (1 + real (num_expert_provided_skills d - 1) * gamma_of c ^ length others) \<and>
              (K = 1 \<longleftrightarrow> num_expert_provided_skills d = 1 \<or> gamma_of c = 0)"
    if h: "others = filter (\<lambda>j. j \<noteq> item \<and> seating_arrangement c ! j = t)
                         [0..<(if generative_mode then item else num_items d)] \<and>
              others \<noteq> [] \<and>
              (\<forall>j\<in>set others.
                 provided_skill_assignments d ! j = provided_skill_assignments d ! item)"
    for others
  proof -
    from h have h1: "others = filter (\<lambda>j. j \<noteq> item \<and> seating_arrangement c ! j = t)
                         [0..<(if generative_mode then item else num_items d)]"
      and h2: "others \<noteq> []"
      and h3: "\<forall>j\<in>set others.
                 provided_skill_assignments d ! j = provided_skill_assignments d ! item"
      by blast+
    let ?V = "num_expert_provided_skills d"
    let ?g = "gamma_of c"
    from compute_K_pure [OF assms h1 h2 h3] K(1)
    have eq: "K = 1 / (1 + real (?V - 1) * ?g ^ length others)" by simp
    have V: "1 \<le> ?V" by (simp add: num_expert_provided_skills_def)
    have g0: "0 \<le> ?g" by (simp add: gamma_of_def split: option.splits)
    from h2 have n: "0 < length others" by simp
    have x0: "0 \<le> real (?V - 1) * ?g ^ length others" using g0 by simp
    have "K = 1 \<longleftrightarrow> real (?V - 1) * ?g ^ length others = 0"
      unfolding eq using x0 by (auto simp: divide_eq_1_iff)
    also have "\<dots> \<longleftrightarrow> ?V = 1 \<or> ?g = 0" using n V by auto
    finally show ?thesis using eq by blast
  qed
  with K fin show ?thesis by blast
qed

lemma ex3_V: "num_expert_provided_skills example_inputs3 = 2"
  by (simp add: num_expert_provided_skills_def example_inputs3_def)

theorem compute_K_range_witness:
  "compute_K example_inputs3 example_chain4 0 1 False = Inr (Some (1 / 2)) \<and>
   log_gamma example_chain4 = Some 0 \<and> gamma_of example_chain4 = 1 \<and>
   compute_K example_inputs3 example_chain5 1 1 True = Inr (Some 1) \<and>
   log_gamma example_chain5 = None \<and> gamma_of example_chain5 = 0"
proof -
  have lg: "log_gamma example_chain4 = Some 0" "log_gamma example_chain5 = None"
    by (simp_all add: example_chain4_def example_chain5_def)
  have h: "0 < num_items example_inputs3"
    "length (seating_arrangement example_chain4) = num_items example_inputs3"
    "length (provided_skill_assignments example_inputs3) = num_items example_inputs3"
    "False \<or> seating_arrangement example_chain4 ! 0 = UNASSIGNED example_inputs3"
    by (simp_all add: example_chain4_def example_inputs3_def)
  from compute_K_range [OF h, of 1] obtain K where
    K: "compute_K example_inputs3 example_chain4 0 1 False = Inr (Some K)"
    and fin: "\<forall>lg. log_gamma example_chain4 = Some lg \<longrightarrow>
                gamma_of example_chain4 = exp lg \<and> 0 < K"
    and pure: "\<forall>others.
              others = filter (\<lambda>j. j \<noteq> 0 \<and> seating_arrangement example_chain4 ! j = 1)
                         [0..<(if False then 0 else num_items example_inputs3)] \<and>
              others \<noteq> [] \<and>
              (\<forall>j\<in>set others.
                 provided_skill_assignments example_inputs3 ! j =
                 provided_skill_assignments example_inputs3 ! 0) \<longrightarrow>
              K = 1 / (1 + real (num_expert_provided_skills example_inputs3 - 1)
                         * gamma_of example_chain4 ^ length others)
              \<and> (K = 1 \<longleftrightarrow> num_expert_provided_skills example_inputs3 = 1
                            \<or> gamma_of example_chain4 = 0)"
    by blast
  have f: "filter (\<lambda>j. j \<noteq> 0 \<and> seating_arrangement example_chain4 ! j = 1)
             [0..<(if False then 0 else num_items example_inputs3)] = [1]"
    by (simp add: example_chain4_def example_inputs3_def upt_rec numeral_eq_Suc)
  from fin lg(1) have g4: "gamma_of example_chain4 = 1" by simp
  have "K = 1 / (1 + real (num_expert_provided_skills example_inputs3 - 1)
                  * gamma_of example_chain4 ^ length [1::nat])"
    using pure [rule_format, of "[1]"] f
    by (simp add: example_inputs3_def)
  then have "K = 1 / 2" by (simp add: ex3_V g4)
  with K have one: "compute_K example_inputs3 example_chain4 0 1 False = Inr (Some (1 / 2))"
    by simp
  have h5: "1 < num_items example_inputs3"
    "length (seating_arrangement example_chain5) = num_items example_inputs3"
    "length (provided_skill_assignments example_inputs3) = num_items example_inputs3"
    "True \<or> seating_arrangement example_chain5 ! 1 = UNASSIGNED example_inputs3"
    by (simp_all add: example_chain5_def example_inputs3_def)
  have g5: "gamma_of example_chain5 = 0" by (simp add: gamma_of_def example_chain5_def)
  from compute_K_range [OF h5, of 1] obtain K5 where
    K5: "compute_K example_inputs3 example_chain5 1 1 True = Inr (Some K5)"
    and pure5: "\<forall>others.
              others = filter (\<lambda>j. j \<noteq> 1 \<and> seating_arrangement example_chain5 ! j = 1)
                         [0..<(if True then 1 else num_items example_inputs3)] \<and>
              others \<noteq> [] \<and>
              (\<forall>j\<in>set others.
                 provided_skill_assignments example_inputs3 ! j =
                 provided_skill_assignments example_inputs3 ! 1) \<longrightarrow>
              K5 = 1 / (1 + real (num_expert_provided_skills example_inputs3 - 1)
                         * gamma_of example_chain5 ^ length others)
              \<and> (K5 = 1 \<longleftrightarrow> num_expert_provided_skills example_inputs3 = 1
                            \<or> gamma_of example_chain5 = 0)"
    by blast
  have f5: "filter (\<lambda>j. j \<noteq> 1 \<and> seating_arrangement example_chain5 ! j = 1)
             [0..<(if True then 1 else num_items example_inputs3)] = [0]"
    by (simp add: example_chain5_def example_inputs3_def)
  have hyp5: "[0] = filter (\<lambda>j. j \<noteq> 1 \<and> seating_arrangement example_chain5 ! j = 1)
                         [0..<(if True then 1 else num_items example_inputs3)] \<and>
              [0] \<noteq> [] \<and>
              (\<forall>j\<in>set [0].
                 provided_skill_assignments example_inputs3 ! j =
                 provided_skill_assignments example_inputs3 ! 1)"
    unfolding f5 by (simp add: example_inputs3_def)
  from pure5 [rule_format, OF hyp5]
  have "K5 = 1 \<longleftrightarrow> num_expert_provided_skills example_inputs3 = 1
                            \<or> gamma_of example_chain5 = 0"
    by blast
  with g5 have "K5 = 1" by simp
  with K5 one g4 g5 lg show ?thesis by simp
qed

text \<open>
  C3 as stated fails, in exact arithmetic already. With \<open>beta = 0\<close> and two expert
  labels, the only other item at table 1 shares the label of item 0, and \<open>K\<close> is 1/2,
  not 1. With \<open>beta = 1\<close> (\<open>gamma = 0\<close>), as \<open>log_seating_prob\<close> calls it for item 2 and
  table 1, \<open>K\<close> is 0.
\<close>

theorem compute_K_counterexample:
  "seating_arrangement example_chain4 = [0, 1, 2] \<and>
   provided_skill_assignments example_inputs3 = [0, 0, 1] \<and>
   compute_K example_inputs3 example_chain4 0 1 False = Inr (Some (1 / 2)) \<and>
   seating_arrangement example_chain5 = [1, 1, 2] \<and>
   compute_K example_inputs3 example_chain5 2 1 True = Inr (Some 0)"
  by (simp add: compute_K_def count_step_def example_chain4_def example_chain5_def
      example_inputs3_def gamma_of_def upt_rec numeral_eq_Suc fdiv_def sub_size_t_def
      num_expert_provided_skills_def empty_chain_def)

subsection \<open>The gates of one iteration\<close>

text \<open>
  The two sibling steps of the \<open>log_gamma\<close> update carry the gate on the expert labels:
  \<open>log_alpha_prime\<close> is slice-updated exactly when expert labels are not used directly
  and \<open>infer_alpha_prime\<close> is enabled (line 309), and when expert labels are used
  directly the partition resweep is skipped entirely, shuffle and Gibbs steps (line
  355).
\<close>

lemma run_mcmc_sibling_gates:
  "(Slice_log_alpha_prime \<in>
      set (run_mcmc_iteration d infer_gamma infer_alpha_prime tables shuffled iter burn)
    \<longleftrightarrow> \<not> use_expert_labels d \<and> infer_alpha_prime) \<and>
   (use_expert_labels d \<longrightarrow>
      Shuffle_all_items \<notin>
        set (run_mcmc_iteration d infer_gamma infer_alpha_prime tables shuffled iter burn) \<and>
      (\<forall>item. Gibbs_resample_skill item \<notin>
        set (run_mcmc_iteration d infer_gamma infer_alpha_prime tables shuffled iter burn))) \<and>
   (\<not> use_expert_labels d \<longrightarrow>
      (\<forall>item. Gibbs_resample_skill item \<in>
         set (run_mcmc_iteration d infer_gamma infer_alpha_prime tables shuffled iter burn)
       \<longleftrightarrow> item \<in> set shuffled))"
  by (auto simp: run_mcmc_iteration_def)

lemma run_mcmc_iteration_subset:
  assumes "iter < num_iterations"
  shows "set (run_mcmc_iteration d infer_gamma infer_alpha_prime (tables_of iter) (shuffled_of iter)
                iter burn)
           \<subseteq> set (run_mcmc d num_iterations burn infer_gamma infer_alpha_prime tables_of shuffled_of)"
  using assms unfolding run_mcmc_def by (auto intro!: bexI [of _ iter])

text \<open>
  C5. The claim asks that \<open>log_gamma\<close> be slice-updated only if expert labels are not
  used directly and \<open>infer_gamma\<close> is enabled. The code tests \<open>infer_gamma\<close> alone (line
  312): with expert labels used directly and \<open>infer_gamma\<close> enabled, the first
  iteration of \<open>run_mcmc\<close> slice-updates \<open>log_gamma\<close>, while it skips the update of
  \<open>log_alpha_prime\<close> and the resweep.
\<close>

theorem run_mcmc_gamma_ungated:
  "use_expert_labels (example_inputs\<lparr>use_expert_labels := True\<rparr>) \<and>
   Slice_log_gamma \<in>
     set (run_mcmc (example_inputs\<lparr>use_expert_labels := True\<rparr>) 1 0 True True
            (\<lambda>iter. [1]) (\<lambda>iter. [1, 0])) \<and>
   Slice_log_alpha_prime \<notin>
     set (run_mcmc (example_inputs\<lparr>use_expert_labels := True\<rparr>) 1 0 True True
            (\<lambda>iter. [1]) (\<lambda>iter. [1, 0])) \<and>
   Gibbs_resample_skill 0 \<notin>
     set (run_mcmc (example_inputs\<lparr>use_expert_labels := True\<rparr>) 1 0 True True
            (\<lambda>iter. [1]) (\<lambda>iter. [1, 0]))"
  by (simp add: run_mcmc_def run_mcmc_iteration_def)

subsection \<open>The likelihood engine\<close>

lemma foldl_absorb:
  assumes "\<And>e x. f (Inl e) x = Inl e"
  shows "foldl f (Inl e) xs = Inl e"
  by (induction xs) (simp_all add: assms)

lemma foldl_fatal:
  assumes absorb: "\<And>e x. f (Inl e) x = Inl e"
    and fatal: "\<And>acc. \<exists>e. f acc k = Inl e"
    and k: "k \<in> set xs"
  shows "\<exists>e. foldl f a xs = Inl e"
proof -
  from k obtain ys zs where xs: "xs = ys @ k # zs" by (auto simp: in_set_conv_decomp)
  from fatal obtain e where "f (foldl f a ys) k = Inl e" by blast
  then show ?thesis unfolding xs by (simp add: foldl_absorb [of f, OF absorb])
qed

lemma scratch_student_Inl [simp]: "scratch_student d c t prm ss fe (Inl e) k = Inl e"
  by (simp add: scratch_student_def)

lemma cached_student_Inl [simp]: "cached_student d c t prm ss fe phs (Inl e) k = Inl e"
  by (simp add: cached_student_def)

lemma add_student_le: "add_student a r = Inr a' \<Longrightarrow> a' \<le> a"
  by (auto simp: add_student_def split: sum.splits option.splits if_splits)

lemma scratch_loop_le:
  "foldl (scratch_student d c t prm ss fe) (Inr a) ks = Inr v \<Longrightarrow> v \<le> a"
proof (induction ks arbitrary: a)
  case Nil
  then show ?case by simp
next
  case (Cons k ks)
  show ?case
  proof (cases "scratch_student d c t prm ss fe (Inr a) k")
    case (Inl e)
    with Cons.prems show ?thesis by (simp add: foldl_absorb)
  next
    case (Inr a')
    then have "a' \<le> a"
      by (auto simp: scratch_student_def split: if_splits dest: add_student_le)
    moreover from Cons.prems Inr have "v \<le> a'" by (intro Cons.IH) simp
    ultimately show ?thesis by simp
  qed
qed

lemma cached_loop_le:
  "foldl (cached_student d c t prm ss fe phs) (Inr a) ks = Inr v \<Longrightarrow> v \<le> a"
proof (induction ks arbitrary: a)
  case Nil
  then show ?case by simp
next
  case (Cons k ks)
  show ?case
  proof (cases "cached_student d c t prm ss fe phs (Inr a) k")
    case (Inl e)
    with Cons.prems show ?thesis by (simp add: foldl_absorb)
  next
    case (Inr a')
    then have "a' \<le> a"
      by (auto simp: cached_student_def split: if_splits option.splits dest: add_student_le)
    moreover from Cons.prems Inr have "v \<le> a'" by (intro Cons.IH) simp
    ultimately show ?thesis by simp
  qed
qed

text \<open>
  C6. A log-likelihood returned by either version of \<open>skill_log_likelihood\<close> is at most
  0. A student whose log-likelihood is finite adds it to the running sum when it is at
  most 0 and adds exactly 0 when it is positive (the clamp), in both versions, so that
  the running sum is at most 0 as well; and when the log-likelihood of a student is not
  finite, the call fails instead of returning a value.
\<close>

theorem skill_log_likelihood_nonpositive:
  "(skill_log_likelihood d c t ss fe = Inr v \<longrightarrow> v \<le> 0) \<and>
   (skill_log_likelihood_cached d c t ss fe phs = Inr v' \<longrightarrow> v' \<le> 0) \<and>
   (add_student a r = Inr a' \<longrightarrow> a' \<le> a) \<and>
   (0 < y \<longrightarrow> add_student a (Inr (Some y)) = Inr a) \<and>
   (y \<le> 0 \<longrightarrow> add_student a (Inr (Some y)) = Inr (a + y)) \<and>
   (k < length fe \<and> student_log_lik d c t prm (ss ! k) (fe ! k) = Inr (Some y) \<longrightarrow>
      scratch_student d c t prm ss fe (Inr a) k = Inr (a + (if 0 < y then 0 else y))) \<and>
   (trial_lookup c t = Some m \<and> m (ss ! k) = Some trials \<and> k < length fe \<and>
      ss ! k < num_students d \<and> k < length phs \<and> (phs ! k) t = Some pinit \<and>
      student_log_lik_cached d prm (ss ! k) (fe ! k) pinit trials = Inr (Some y) \<longrightarrow>
      cached_student d c t prm ss fe phs (Inr a) k = Inr (a + (if 0 < y then 0 else y))) \<and>
   (foldl (scratch_student d c t prm ss fe) (Inr 0) [0..<length ss] = Inr x \<longrightarrow> x \<le> 0) \<and>
   (foldl (cached_student d c t prm ss fe phs) (Inr 0) [0..<length ss] = Inr x' \<longrightarrow> x' \<le> 0) \<and>
   (parameters c t = Some prm \<and> k < length ss \<and>
      student_log_lik d c t prm (ss ! k) (fe ! k) = Inr None \<longrightarrow>
      (\<exists>e. skill_log_likelihood d c t ss fe = Inl e)) \<and>
   (table_sizes c t = Some n \<and> n \<noteq> 0 \<and> parameters c t = Some prm \<and> k < length ss \<and>
      trial_lookup c t = Some m \<and> m (ss ! k) = Some trials \<and> k < length phs \<and>
      (phs ! k) t = Some pinit \<and>
      student_log_lik_cached d prm (ss ! k) (fe ! k) pinit trials = Inr None \<longrightarrow>
      (\<exists>e. skill_log_likelihood_cached d c t ss fe phs = Inl e))"
proof -
  have a: "v \<le> 0" if "skill_log_likelihood d c t ss fe = Inr v"
    using that by (auto simp: skill_log_likelihood_def split: option.splits sum.splits if_splits)
  have b: "v' \<le> 0" if "skill_log_likelihood_cached d c t ss fe phs = Inr v'"
    using that
    by (auto simp: skill_log_likelihood_cached_def split: option.splits sum.splits if_splits)
  have d: "\<exists>e. skill_log_likelihood d c t ss fe = Inl e"
    if "parameters c t = Some prm \<and> k < length ss \<and>
      student_log_lik d c t prm (ss ! k) (fe ! k) = Inr None"
  proof -
    from that have h: "parameters c t = Some prm" "k < length ss"
      "student_log_lik d c t prm (ss ! k) (fe ! k) = Inr None" by blast+
    have "\<exists>e. scratch_student d c t prm ss fe acc k = Inl e" for acc
      using h(3) by (cases acc) (simp_all add: scratch_student_def add_student_def)
    moreover have "k \<in> set [0..<length ss]" using h(2) by simp
    ultimately have "\<exists>e. foldl (scratch_student d c t prm ss fe) (Inr 0) [0..<length ss] = Inl e"
      by (intro foldl_fatal) simp_all
    then show ?thesis using h(1) by (auto simp: skill_log_likelihood_def)
  qed
  have e: "\<exists>e. skill_log_likelihood_cached d c t ss fe phs = Inl e"
    if "table_sizes c t = Some n \<and> n \<noteq> 0 \<and> parameters c t = Some prm \<and> k < length ss \<and>
      trial_lookup c t = Some m \<and> m (ss ! k) = Some trials \<and> k < length phs \<and>
      (phs ! k) t = Some pinit \<and>
      student_log_lik_cached d prm (ss ! k) (fe ! k) pinit trials = Inr None"
  proof -
    from that have h: "table_sizes c t = Some n" "n \<noteq> 0" "parameters c t = Some prm"
      "k < length ss" "trial_lookup c t = Some m" "m (ss ! k) = Some trials" "k < length phs"
      "(phs ! k) t = Some pinit"
      "student_log_lik_cached d prm (ss ! k) (fe ! k) pinit trials = Inr None" by blast+
    have "\<exists>e. cached_student d c t prm ss fe phs acc k = Inl e" for acc
      using h(5-9) by (cases acc) (simp_all add: cached_student_def add_student_def)
    moreover have "k \<in> set [0..<length ss]" using h(4) by simp
    ultimately have "\<exists>e. foldl (cached_student d c t prm ss fe phs) (Inr 0) [0..<length ss] = Inl e"
      by (intro foldl_fatal) simp_all
    then show ?thesis using h(1-3) by (auto simp: skill_log_likelihood_cached_def)
  qed
  have c1: "0 < y \<longrightarrow> add_student a (Inr (Some y)) = Inr a"
    and c2: "y \<le> 0 \<longrightarrow> add_student a (Inr (Some y)) = Inr (a + y)"
    by (simp_all add: add_student_def)
  have c3: "k < length fe \<and> student_log_lik d c t prm (ss ! k) (fe ! k) = Inr (Some y) \<longrightarrow>
      scratch_student d c t prm ss fe (Inr a) k = Inr (a + (if 0 < y then 0 else y))"
    by (simp add: scratch_student_def add_student_def)
  have c4: "trial_lookup c t = Some m \<and> m (ss ! k) = Some trials \<and> k < length fe \<and>
      ss ! k < num_students d \<and> k < length phs \<and> (phs ! k) t = Some pinit \<and>
      student_log_lik_cached d prm (ss ! k) (fe ! k) pinit trials = Inr (Some y) \<longrightarrow>
      cached_student d c t prm ss fe phs (Inr a) k = Inr (a + (if 0 < y then 0 else y))"
    by (simp add: cached_student_def add_student_def)
  have f: "add_student a r = Inr a' \<longrightarrow> a' \<le> a"
    using add_student_le [of a r a'] by blast
  have g: "foldl (scratch_student d c t prm ss fe) (Inr 0) [0..<length ss] = Inr x \<longrightarrow> x \<le> 0"
    using scratch_loop_le [of d c t prm ss fe 0 _ x] by blast
  have h: "foldl (cached_student d c t prm ss fe phs) (Inr 0) [0..<length ss] = Inr x' \<longrightarrow> x' \<le> 0"
    using cached_loop_le [of d c t prm ss fe phs 0 _ x'] by blast
  show ?thesis
    using a b d e by (intro conjI impI f c1 c2 c3 c4 g h) blast+
qed

lemma ex_engine_fields:
  "seating_arrangement example_chain2 = [Suc 0, Suc 0]"
  "parameters example_chain2 = [Suc 0 \<mapsto> example_params]"
  "trial_lookup example_chain2 = [Suc 0 \<mapsto> [0 \<mapsto> [0, Suc 0, Suc (Suc 0)]]]"
  "table_sizes example_chain2 = [Suc 0 \<mapsto> Suc (Suc 0)]"
  "num_items example_inputs = Suc (Suc 0)"
  "num_students example_inputs = Suc 0"
  "recall_sequences example_inputs = [[True, False, True]]"
  "item_sequences example_inputs = [[0, Suc 0, 0]]"
  "TOL example_inputs = 1 / 1000000"
  by (simp_all add: example_chain2_def example_chain1_def init_chain_def example_inputs_def
      empty_chain_def upt_rec numeral_eq_Suc)

lemma ex_recall_items:
  "item_and_recall_sequences example_inputs 0 = [(0, True), (Suc 0, False), (0, True)]"
  by (simp add: item_and_recall_sequences_def ex_engine_fields)

lemma ex_student_ll:
  "student_log_lik example_inputs example_chain2 (Suc 0) example_params 0 (Suc (Suc 0)) = Inr (Some (ln (49 / 104)))"
  by (simp add: student_log_lik_def ex_engine_fields ex_recall_items scratch_trial_def Let_def
      example_params_def update_p_hat_def fdiv_def trial_log_lik_def flog_def pRT_def d_add_def)

lemma ex_skill_ll:
  "skill_log_likelihood example_inputs example_chain2 1 [0] [2] = Inr (ln (49 / 104))"
proof -
  have l: "ln (49 / 104 :: real) \<le> 0" by simp
  then have "ln (49 / 104 :: real) * 1000000 \<le> 0 * 1000000"
    by (intro mult_right_mono) simp_all
  then have "ln (49 / 104 :: real) * 1000000 \<le> 1" by linarith
  moreover from l have "\<not> 0 < ln (49 / 104 :: real)" by linarith
  ultimately have f: "ln (49 / 104 :: real) * 1000000 \<le> 1" "\<not> 0 < ln (49 / 104 :: real)"
    by blast+
  show ?thesis
    by (simp add: skill_log_likelihood_def ex_engine_fields scratch_student_def ex_student_ll
        add_student_def numeral_2_eq_2 min_def f)
qed

lemma ex_fatal:
  "skill_log_likelihood example_inputs example_chain6 1 [0] [0] = Inl AssertionFailure"
  by (simp add: skill_log_likelihood_def example_chain6_def ex_engine_fields scratch_student_def
      student_log_lik_def ex_recall_items scratch_trial_def Let_def update_p_hat_def fdiv_def
      trial_log_lik_def flog_def pRT_def d_add_def add_student_def)

lemma ex9_fields:
  "parameters example_chain9 = [Suc 0 \<mapsto> \<lparr>psi = 1 / 2, mu = 1 / 2, pi1 = 2, prop0 = 1\<rparr>]"
  "trial_lookup example_chain9 = [Suc 0 \<mapsto> [0 \<mapsto> [0, Suc (Suc 0)]]]"
  "table_sizes example_chain9 = [Suc 0 \<mapsto> Suc 0]"
  by (simp_all add: example_chain9_def example_chain1_def numeral_2_eq_2)

lemma cache_step_Inl [simp]: "cache_step d c s (Inl e) tr = Inl e"
  by (simp add: cache_step_def)

lemma cache_loop:
  "foldl (cache_step d c s) (Inr (init_p_hat c)) [0..<T] = Inr ph \<Longrightarrow>
   T \<le> length (recall_sequences d ! s) \<and> T \<le> length (item_sequences d ! s) \<and>
   (\<forall>t. ph t = map_option
      (\<lambda>prm. belief prm (\<lambda>tr. recall_sequences d ! s ! tr)
         (filter (\<lambda>tr. seating_arrangement c ! (item_sequences d ! s ! tr) = t) [0..<T])
         (Some (psi prm)))
      (parameters c t))"
proof (induction T arbitrary: ph)
  case 0
  then show ?case by (auto simp: init_p_hat_def belief_def map_option_case split: option.splits)
next
  case (Suc T)
  let ?inner = "foldl (cache_step d c s) (Inr (init_p_hat c)) [0..<T]"
  let ?seat = "\<lambda>tr. seating_arrangement c ! (item_sequences d ! s ! tr)"
  from Suc.prems have st: "cache_step d c s ?inner T = Inr ph" by simp
  then obtain ph1 where inner: "?inner = Inr ph1" by (cases ?inner) auto
  note IH = Suc.IH [OF inner]
  from st inner obtain prm cur where
    rng: "T < length (recall_sequences d ! s)" "T < length (item_sequences d ! s)"
    and prm: "parameters c (?seat T) = Some prm"
    and cur: "ph1 (?seat T) = Some cur"
    and ph: "ph = ph1(?seat T \<mapsto> Option.bind cur (update_p_hat prm (recall_sequences d ! s ! T)))"
    by (auto simp: cache_step_def Let_def split: if_splits option.splits)
  have "ph t = map_option
      (\<lambda>prm. belief prm (\<lambda>tr. recall_sequences d ! s ! tr) (filter (\<lambda>tr. ?seat tr = t) [0..<Suc T])
         (Some (psi prm)))
      (parameters c t)" for t
  proof (cases "t = ?seat T")
    case True
    from IH cur prm have "cur = belief prm (\<lambda>tr. recall_sequences d ! s ! tr)
        (filter (\<lambda>tr. ?seat tr = ?seat T) [0..<T]) (Some (psi prm))" by simp
    with True ph prm show ?thesis by (simp add: belief_append)
  next
    case False
    with ph IH show ?thesis by simp
  qed
  with rng show ?case by simp
qed

lemma sorted_split:
  "sorted xs \<Longrightarrow> xs = filter (\<lambda>x. x < T) xs @ filter (\<lambda>x. \<not> x < T) xs" for xs :: "nat list"
proof (induction xs)
  case Nil
  show ?case by simp
next
  case (Cons a xs)
  show ?case
  proof (cases "a < T")
    case True
    with Cons show ?thesis by simp
  next
    case False
    with Cons.prems have "\<forall>x\<in>set xs. \<not> x < T" by auto
    then have "filter (\<lambda>x. x < T) xs = []" "filter (\<lambda>x. \<not> x < T) xs = xs"
      by (simp_all add: filter_empty_conv filter_id_conv)
    with False show ?thesis by simp
  qed
qed

lemma scratch_prefix:
  "\<forall>x\<in>set xs. x < T \<and> x < length ri \<Longrightarrow>
   foldl (scratch_trial prm ri T) (Inr (ll, p)) xs =
     Inr (ll, belief prm (\<lambda>tr. snd (ri ! tr)) xs p)"
  by (induction xs arbitrary: p) (simp_all add: scratch_trial_def belief_def)

lemma cached_prefix:
  "\<forall>x\<in>set xs. x < T \<Longrightarrow> foldl (cached_trial prm ri T) (Inr st) xs = Inr st"
  by (induction xs) (simp_all add: cached_trial_def split: prod.splits)

lemma scratch_cached_suffix:
  "\<forall>x\<in>set xs. \<not> x < T \<Longrightarrow>
   foldl (scratch_trial prm ri T) r xs = foldl (cached_trial prm ri T) r xs"
proof (induction xs arbitrary: r)
  case Nil
  show ?case by simp
next
  case (Cons a xs)
  then have "scratch_trial prm ri T r a = cached_trial prm ri T r a"
    by (auto simp: scratch_trial_def cached_trial_def split: sum.splits)
  with Cons show ?case by simp
qed

lemma belief_cong:
  "(\<And>x. x \<in> set xs \<Longrightarrow> f x = g x) \<Longrightarrow> belief prm f xs p = belief prm g xs p"
  unfolding belief_def by (induction xs arbitrary: p) simp_all

lemma filter_less_upt: "T \<le> n \<Longrightarrow> filter (\<lambda>x. x < T) [0..<n] = [0..<T]"
proof -
  assume "T \<le> n"
  then have "[0..<n] = [0..<T] @ [T..<n]"
    by (metis le_add_diff_inverse upt_add_eq_append zero_le)
  then show ?thesis by (simp add: filter_empty_conv filter_id_conv)
qed

lemma student_agree:
  assumes wf: "wf_inputs d" and inv: "ledger_inv d c"
    and m: "trial_lookup c t = Some m" and L: "m s = Some L"
    and cache: "cache_p_hat d c s T = Inr ph"
    and prm: "parameters c t = Some prm"
  shows "\<exists>p0. ph t = Some p0 \<and> s < num_students d \<and>
           student_log_lik d c t prm s T = student_log_lik_cached d prm s T p0 L"
proof -
  note I = ledger_invD [OF inv]
  let ?sa = "seating_arrangement c"
  let ?items = "item_sequences d ! s"
  let ?recalls = "recall_sequences d ! s"
  let ?ri = "item_and_recall_sequences d s"
  let ?seat = "\<lambda>tr. ?sa ! (?items ! tr)"
  from m I(10) [of t] have mt: "m = lookup_of d ?sa t" by (auto split: if_splits)
  with L have s: "s < num_students d" and Leq: "L = trials_at d ?sa t s"
    by (auto simp: lookup_of_def split: if_splits)
  from cache have loop: "foldl (cache_step d c s) (Inr (init_p_hat c)) [0..<T] = Inr ph"
    by (auto simp: cache_p_hat_def split: if_splits)
  from cache_loop [OF loop] prm have T: "T \<le> length ?recalls" "T \<le> length ?items"
    and pht: "ph t = Some (belief prm (\<lambda>tr. ?recalls ! tr) (filter (\<lambda>tr. ?seat tr = t) [0..<T])
         (Some (psi prm)))"
    by simp_all
  let ?p0 = "belief prm (\<lambda>tr. ?recalls ! tr) (filter (\<lambda>tr. ?seat tr = t) [0..<T]) (Some (psi prm))"
  let ?L1 = "filter (\<lambda>x. x < T) L"
  let ?L2 = "filter (\<lambda>x. \<not> x < T) L"
  have sorted: "sorted L" unfolding Leq
    using strict_sorted_trials_at [of d ?sa t s] by (simp add: strict_sorted_iff)
  have split: "L = ?L1 @ ?L2" by (rule sorted_split [OF sorted])
  have L1: "?L1 = filter (\<lambda>tr. ?seat tr = t) [0..<T]"
  proof -
    have "?L1 = filter (\<lambda>tr. ?seat tr = t) (filter (\<lambda>x. x < T) [0..<length ?items])"
      unfolding Leq trials_at_def by (simp add: conj_commute)
    then show ?thesis using filter_less_upt [OF T(2)] by simp
  qed
  have ri_len: "T \<le> length ?ri" using T by (simp add: item_and_recall_sequences_def)
  have ri_snd: "snd (?ri ! x) = ?recalls ! x" if "x < T" for x
    using that T by (simp add: item_and_recall_sequences_def)
  have pre: "\<forall>x\<in>set ?L1. x < T \<and> x < length ?ri" using ri_len by auto
  have bel: "belief prm (\<lambda>tr. snd (?ri ! tr)) ?L1 (Some (psi prm)) = ?p0"
    unfolding L1 [symmetric] by (rule belief_cong) (simp add: ri_snd)
  have "foldl (scratch_trial prm ?ri T) (Inr (Some 0, Some (psi prm))) L =
        foldl (scratch_trial prm ?ri T)
          (foldl (scratch_trial prm ?ri T) (Inr (Some 0, Some (psi prm))) ?L1) ?L2"
    by (subst split) simp
  also have "\<dots> = foldl (scratch_trial prm ?ri T) (Inr (Some 0, ?p0)) ?L2"
    by (simp only: scratch_prefix [OF pre] bel)
  also have "\<dots> = foldl (cached_trial prm ?ri T) (Inr (Some 0, ?p0)) ?L2"
    by (rule scratch_cached_suffix) simp
  also have "\<dots> = foldl (cached_trial prm ?ri T)
          (foldl (cached_trial prm ?ri T) (Inr (Some 0, ?p0)) ?L1) ?L2"
    by (subst cached_prefix [of ?L1 T]) simp_all
  also have "\<dots> = foldl (cached_trial prm ?ri T) (Inr (Some 0, ?p0)) L"
    by (subst (3) split) simp
  finally have eq: "foldl (scratch_trial prm ?ri T) (Inr (Some 0, Some (psi prm))) L =
        foldl (cached_trial prm ?ri T) (Inr (Some 0, ?p0)) L" .
  have "student_log_lik d c t prm s T = student_log_lik_cached d prm s T ?p0 L"
    using s m L by (simp add: student_log_lik_def student_log_lik_cached_def eq)
  with pht s show ?thesis by blast
qed

text \<open>
  C2 (amended). In a reachable chain state, for an extant skill and students who all
  have an entry in the skill's lookup map, the evaluation from scratch and the
  evaluation from the beliefs that \<open>cache_p_hat\<close> returns at each student's start trial
  give the same result (in exact arithmetic; \<open>TOL\<close> is not negative).
\<close>

theorem likelihood_modes_agree:
  assumes wf: "wf_inputs d" and r: "reachable d c" and tol: "0 \<le> TOL d"
    and t: "table_id \<in> extant_tables c"
    and len: "length init_p_hats = length affected_students"
    and each: "\<forall>k<length affected_students.
                 (\<exists>m l. trial_lookup c table_id = Some m \<and> m (affected_students ! k) = Some l) \<and>
                 cache_p_hat d c (affected_students ! k) (first_exposures ! k) = Inr (init_p_hats ! k)"
  shows "skill_log_likelihood d c table_id affected_students first_exposures =
         skill_log_likelihood_cached d c table_id affected_students first_exposures init_p_hats"
proof -
  note inv = reachable_inv [OF wf r]
  note I = ledger_invD [OF inv]
  from t I(6) obtain prm where prm: "parameters c table_id = Some prm" by auto
  from t I(8) [OF t] I(9) [OF t] have sz: "table_sizes c table_id \<noteq> None"
    "table_sizes c table_id \<noteq> Some 0" by auto
  let ?f = "scratch_student d c table_id prm affected_students first_exposures"
  let ?g = "cached_student d c table_id prm affected_students first_exposures init_p_hats"
  have step: "?f acc k = ?g acc k" if "k \<in> set [0..<length affected_students]" for acc k
  proof (cases acc)
    case (Inl e)
    then show ?thesis by simp
  next
    case (Inr a)
    from that have k: "k < length affected_students" by simp
    with each obtain m l where
      m: "trial_lookup c table_id = Some m" "m (affected_students ! k) = Some l"
      and cache: "cache_p_hat d c (affected_students ! k) (first_exposures ! k) = Inr (init_p_hats ! k)"
      by blast
    from student_agree [OF wf inv m cache prm] obtain p0 where
      p0: "(init_p_hats ! k) table_id = Some p0" "affected_students ! k < num_students d"
        "student_log_lik d c table_id prm (affected_students ! k) (first_exposures ! k) =
         student_log_lik_cached d prm (affected_students ! k) (first_exposures ! k) p0 l"
      by blast
    show ?thesis
      using Inr m p0 k len by (simp add: scratch_student_def cached_student_def)
  qed
  have fold: "foldl ?f (Inr 0) [0..<length affected_students] =
              foldl ?g (Inr 0) [0..<length affected_students]"
    by (rule foldl_cong [OF refl refl]) (rule step)
  show ?thesis
  proof (cases "foldl ?g (Inr 0) [0..<length affected_students]")
    case (Inl e)
    with fold prm sz show ?thesis
      by (auto simp: skill_log_likelihood_def skill_log_likelihood_cached_def)
  next
    case (Inr x)
    from cached_loop_le [OF Inr] have "x \<le> 0" .
    with Inr fold prm sz tol show ?thesis
      by (auto simp: skill_log_likelihood_def skill_log_likelihood_cached_def min_def)
  qed
qed

lemma ex4_students: "students_who_studied example_inputs4 (Suc 0) = [Suc 0]"
  by (simp add: students_who_studied_def ever_studied_def example_inputs4_def upt_rec numeral_eq_Suc)

lemma ex4_trials: "trials_studied example_inputs4 (Suc 0) (Suc 0) = [0]"
  by (simp add: trials_studied_def example_inputs4_def)

lemma ex_assign7:
  "assign_item_to_table example_inputs4 example_params 1 2 True (init_chain example_inputs4)
     = Inr example_chain7"
  unfolding assign_item_to_table_def
  apply (simp add: Let_def ex4_students seed_lookup_def ex4_trials)
  apply (simp add: example_inputs4_def init_chain_def empty_chain_def example_chain7_def numeral_eq_Suc upt_rec)
  done

lemma ex_reach7: "reachable example_inputs4 example_chain7"
  by (rule reach_assign_new [OF reach_init _ _ _ _ ex_assign7])
    (simp_all add: init_chain_def empty_chain_def example_inputs4_def)

text \<open>
  C2 as stated fails for a student without a trial in the skill: the cached version
  skips the student and returns 0, the version from scratch fails on the missing
  entry. In \<open>example_chain7\<close> this is student 0, who studied the removed item 0 only,
  at table 2.
\<close>

theorem likelihood_modes_counterexample:
  "reachable example_inputs4 example_chain7 \<and>
   cache_p_hat example_inputs4 example_chain7 0 0 = Inr (init_p_hat example_chain7) \<and>
   skill_log_likelihood_cached example_inputs4 example_chain7 2 [0] [0] [init_p_hat example_chain7]
     = Inr 0 \<and>
   skill_log_likelihood example_inputs4 example_chain7 2 [0] [0] = Inl OutOfRange"
proof -
  have f: "parameters example_chain7 = [2 \<mapsto> example_params]"
    "table_sizes example_chain7 = [2 \<mapsto> 1]"
    "trial_lookup example_chain7 = [2 \<mapsto> [1 \<mapsto> [0]]]"
    "num_students example_inputs4 = 2"
    "length (recall_sequences example_inputs4) = 2"
    "length (item_sequences example_inputs4) = 2"
    by (simp_all add: example_chain7_def example_inputs4_def)
  have a: "cache_p_hat example_inputs4 example_chain7 0 0 = Inr (init_p_hat example_chain7)"
    by (simp add: cache_p_hat_def f)
  have b: "skill_log_likelihood_cached example_inputs4 example_chain7 2 [0] [0]
             [init_p_hat example_chain7] = Inr 0"
    by (simp add: skill_log_likelihood_cached_def f cached_student_def)
  have c: "skill_log_likelihood example_inputs4 example_chain7 2 [0] [0] = Inl OutOfRange"
    by (simp add: skill_log_likelihood_def f scratch_student_def student_log_lik_def add_student_def)
  from ex_reach7 a b c show ?thesis by blast
qed

lemma ex_cache2:
  "\<exists>ph. cache_p_hat example_inputs example_chain2 0 2 = Inr ph"
  by (simp add: cache_p_hat_def ex_engine_fields cache_step_def init_p_hat_def upt_rec numeral_eq_Suc Let_def)

theorem likelihood_modes_agree_witness:
  "\<exists>ph. cache_p_hat example_inputs example_chain2 0 2 = Inr ph \<and>
     skill_log_likelihood_cached example_inputs example_chain2 1 [0] [2] [ph] = Inr (ln (49 / 104)) \<and>
     skill_log_likelihood example_inputs example_chain2 1 [0] [2] = Inr (ln (49 / 104))"
proof -
  from ex_cache2 obtain ph where ph: "cache_p_hat example_inputs example_chain2 0 2 = Inr ph"
    by blast
  have h: "0 \<le> TOL example_inputs" "1 \<in> extant_tables example_chain2"
    "length [ph] = length [0::nat]"
    by (simp_all add: example_inputs_def example_chain2_def example_chain1_def)
  have each: "\<forall>k<length [0::nat].
       (\<exists>m l. trial_lookup example_chain2 1 = Some m \<and> m ([0] ! k) = Some l) \<and>
       cache_p_hat example_inputs example_chain2 ([0] ! k) ([2] ! k) = Inr ([ph] ! k)"
    using ph by (simp add: ex_engine_fields)
  from likelihood_modes_agree [OF example_wf ex_reach2 h each]
  have "skill_log_likelihood example_inputs example_chain2 1 [0] [2] =
        skill_log_likelihood_cached example_inputs example_chain2 1 [0] [2] [ph]" .
  with ex_skill_ll ph show ?thesis by auto
qed

theorem skill_log_likelihood_nonpositive_witness:
  "skill_log_likelihood example_inputs example_chain2 1 [0] [2] = Inr (ln (49 / 104)) \<and>
   ln (49 / 104) \<le> (0::real) \<and>
   student_log_lik example_inputs example_chain6 1 \<lparr>psi = 1 / 2, mu = 1 / 2, pi1 = 1, prop0 = 1\<rparr> 0 0
     = Inr None \<and>
   skill_log_likelihood example_inputs example_chain6 1 [0] [0] = Inl AssertionFailure \<and>
   student_log_lik example_inputs example_chain9 1 \<lparr>psi = 1 / 2, mu = 1 / 2, pi1 = 2, prop0 = 1\<rparr> 0 0
     = Inr (Some (ln 2 + ln 2)) \<and>
   (0::real) < ln 2 + ln 2 \<and>
   add_student 0 (Inr (Some (ln 2 + ln 2))) = Inr 0 \<and>
   add_student 0 (Inr (Some (ln (49 / 104)))) = Inr (ln (49 / 104)) \<and>
   scratch_student example_inputs example_chain9 1 \<lparr>psi = 1 / 2, mu = 1 / 2, pi1 = 2, prop0 = 1\<rparr>
     [0] [0] (Inr 0) 0 = Inr 0 \<and>
   cached_student example_inputs example_chain9 1 \<lparr>psi = 1 / 2, mu = 1 / 2, pi1 = 2, prop0 = 1\<rparr>
     [0] [0] [init_p_hat example_chain9] (Inr 0) 0 = Inr 0 \<and>
   skill_log_likelihood example_inputs example_chain9 1 [0] [0] = Inr 0 \<and>
   skill_log_likelihood_cached example_inputs example_chain9 1 [0] [0] [init_p_hat example_chain9] = Inr 0"
proof -
  let ?prm = "\<lparr>psi = 1 / 2, mu = 1 / 2, pi1 = 1, prop0 = 1\<rparr>"
  let ?prm9 = "\<lparr>psi = 1 / 2, mu = 1 / 2, pi1 = 2, prop0 = 1\<rparr>"
  let ?y = "ln 2 + ln (2::real)"
  note T = skill_log_likelihood_nonpositive [where d = example_inputs and c = example_chain2
      and t = 1 and ss = "[0]" and fe = "[2]" and v = "ln (49 / 104)" and y = "ln (49 / 104)"
      and a = 0]
  from T ex_skill_ll have le: "ln (49 / 104) \<le> (0::real)" by blast
  with T have neg: "add_student 0 (Inr (Some (ln (49 / 104)))) = Inr (ln (49 / 104))"
    by simp
  have raw: "student_log_lik example_inputs example_chain6 1 ?prm 0 0 = Inr None"
    by (simp add: example_chain6_def ex_engine_fields student_log_lik_def ex_recall_items
        scratch_trial_def Let_def update_p_hat_def fdiv_def trial_log_lik_def flog_def pRT_def
        d_add_def)
  have "parameters example_chain6 1 = Some ?prm \<and> 0 < length [0::nat] \<and>
        student_log_lik example_inputs example_chain6 1 ?prm ([0] ! 0) ([0] ! 0) = Inr None"
    using raw by (simp add: example_chain6_def)
  with skill_log_likelihood_nonpositive [where d = example_inputs and c = example_chain6
      and t = 1 and ss = "[0]" and fe = "[0]" and prm = ?prm and k = 0]
  obtain e where "skill_log_likelihood example_inputs example_chain6 1 [0] [0] = Inl e" by blast
  note fatal = this
  note T9 = skill_log_likelihood_nonpositive [where d = example_inputs and c = example_chain9
      and t = 1 and ss = "[0]" and fe = "[0]" and prm = ?prm9 and k = 0 and y = ?y and a = 0
      and phs = "[init_p_hat example_chain9]" and m = "[0 \<mapsto> [0, 2]]" and trials = "[0, 2]"
      and pinit = "Some (1 / 2)"]
  have pos: "0 < ?y" by simp
  have raw9: "student_log_lik example_inputs example_chain9 1 ?prm9 0 0 = Inr (Some ?y)"
    by (simp add: ex9_fields student_log_lik_def ex_recall_items ex_engine_fields
        scratch_trial_def Let_def update_p_hat_def fdiv_def trial_log_lik_def flog_def pRT_def
        d_add_def)
  have raw9c: "student_log_lik_cached example_inputs ?prm9 0 0 (Some (1 / 2)) [0, 2] = Inr (Some ?y)"
    by (simp add: student_log_lik_cached_def ex_recall_items
        cached_trial_def Let_def update_p_hat_def fdiv_def trial_log_lik_def flog_def pRT_def
        d_add_def)
  from T9 pos have clamp: "add_student 0 (Inr (Some ?y)) = Inr 0" by blast
  have "0 < length [0::nat] \<and>
        student_log_lik example_inputs example_chain9 1 ?prm9 ([0] ! 0) ([0] ! 0) = Inr (Some ?y)"
    using raw9 by simp
  with T9 have "scratch_student example_inputs example_chain9 1 ?prm9 [0] [0] (Inr 0) 0
      = Inr (0 + (if 0 < ?y then 0 else ?y))" by blast
  with pos have s9: "scratch_student example_inputs example_chain9 1 ?prm9 [0] [0] (Inr 0) 0 = Inr 0"
    by simp
  have "trial_lookup example_chain9 1 = Some [0 \<mapsto> [0, 2]] \<and>
        [0 \<mapsto> [0, 2::nat]] ([0] ! 0) = Some [0, 2] \<and> 0 < length [0::nat] \<and>
        [0] ! 0 < num_students example_inputs \<and> 0 < length [init_p_hat example_chain9] \<and>
        ([init_p_hat example_chain9] ! 0) 1 = Some (Some (1 / 2)) \<and>
        student_log_lik_cached example_inputs ?prm9 ([0] ! 0) ([0] ! 0) (Some (1 / 2)) [0, 2]
          = Inr (Some ?y)"
    using raw9c by (simp add: ex9_fields ex_engine_fields init_p_hat_def numeral_2_eq_2)
  with T9 have "cached_student example_inputs example_chain9 1 ?prm9 [0] [0]
      [init_p_hat example_chain9] (Inr 0) 0 = Inr (0 + (if 0 < ?y then 0 else ?y))" by blast
  with pos have c9: "cached_student example_inputs example_chain9 1 ?prm9 [0] [0]
      [init_p_hat example_chain9] (Inr 0) 0 = Inr 0"
    by simp
  have k9: "skill_log_likelihood example_inputs example_chain9 1 [0] [0] = Inr 0"
    using s9 by (simp add: skill_log_likelihood_def ex9_fields ex_engine_fields)
  have k9c: "skill_log_likelihood_cached example_inputs example_chain9 1 [0] [0]
      [init_p_hat example_chain9] = Inr 0"
    using c9 by (simp add: skill_log_likelihood_cached_def ex9_fields)
  from ex_fatal le raw ex_skill_ll raw9 pos clamp neg s9 c9 k9 k9c show ?thesis
    by (intro conjI)
qed

subsection \<open>The callers of the ledger\<close>

text \<open>
  The states that \<open>gibbs_resample_skill\<close> and the seating loop of the constructor pass
  through are reachable in the sense of \<open>reachable\<close>: every ledger call they make is one
  of its rules. The constructor's second loop (lines 226-251) makes calls of the same
  kinds. With \<open>UNASSIGNED = 0\<close>, which the table ids \<open>1 + label\<close> and the initial
  counter \<open>UNASSIGNED + 1\<close> suggest, the seating loop returns, with every item seated
  and a fresh id counter; a Gibbs step that returns keeps both.
\<close>

lemma assign_counter:
  "assign_item_to_table d prm item t new c = Inr c' \<Longrightarrow>
   tables_ever_instantiated c' = tables_ever_instantiated c"
  by (auto simp: assign_item_to_table_def Let_def split: if_splits)

lemma remove_counter:
  "remove_item_from_table d item t c = Inr (deleted, c') \<Longrightarrow>
   tables_ever_instantiated c' = tables_ever_instantiated c"
  by (auto simp: remove_item_from_table_def Let_def split: if_splits sum.splits)

lemma gibbs_try_table_Inl [simp]: "gibbs_try_table d prm item ss fe ph (Inl e) t = Inl e"
  by (simp add: gibbs_try_table_def)

lemma gibbs_try_table_step:
  assumes wf: "wf_inputs d" and r: "reachable d c" and item: "item < num_items d"
    and seat: "seating_arrangement c ! item = UNASSIGNED d"
    and t: "t \<in> extant_tables c"
    and step: "gibbs_try_table d prm item ss fe ph (Inr c) t = Inr c'"
  shows "reachable d c' \<and> seating_arrangement c' = seating_arrangement c \<and>
         extant_tables c' = extant_tables c \<and>
         tables_ever_instantiated c' = tables_ever_instantiated c"
proof -
  note inv = reachable_inv [OF wf r]
  note I = ledger_invD [OF inv]
  let ?sa = "seating_arrangement c"
  have il: "item < length ?sa" using item I(1) by simp
  have tU: "t \<noteq> UNASSIGNED d" using t I(3) by auto
  from step obtain c_with deleted where
    a: "assign_item_to_table d prm item t False c = Inr c_with"
    and b: "remove_item_from_table d item t c_with = Inr (deleted, c')"
    by (auto simp: gibbs_try_table_def split: sum.splits if_splits)
  from assign_old_inv [OF wf inv item seat t, of prm] a
  have w: "ledger_inv d c_with" "seating_arrangement c_with = ?sa[item := t]"
    "extant_tables c_with = extant_tables c" by auto
  have rw: "reachable d c_with" by (rule reach_assign_old [OF r item seat t a])
  have seatw: "seating_arrangement c_with ! item = t" using w(2) il by simp
  from remove_inv [OF wf w(1) item seatw tU] b
  have o: "seating_arrangement c' = (seating_arrangement c_with)[item := UNASSIGNED d]"
    "extant_tables c' = (if count_list (seating_arrangement c_with) t = 1
                         then extant_tables c_with - {t} else extant_tables c_with)"
    by auto
  have "count_list (?sa[item := t]) t = count_list ?sa t + 1"
    using count_list_assign [OF il, of t t] seat tU by simp
  moreover have "0 < count_list ?sa t" by (rule I(9) [OF t])
  ultimately have "count_list (seating_arrangement c_with) t \<noteq> 1" using w(2) by simp
  with o(2) w(3) have ex: "extant_tables c' = extant_tables c" by simp
  have "seating_arrangement c' = ?sa[item := UNASSIGNED d]" using o(1) w(2) by simp
  also have "\<dots> = ?sa" using seat [symmetric] by (simp add: list_update_id)
  finally have sa: "seating_arrangement c' = ?sa" .
  have "reachable d c'" by (rule reach_remove [OF rw item seatw tU b])
  moreover have "tables_ever_instantiated c' = tables_ever_instantiated c"
    using assign_counter [OF a] remove_counter [OF b] by simp
  ultimately show ?thesis using sa ex by simp
qed

lemma gibbs_loop:
  assumes wf: "wf_inputs d" and item: "item < num_items d"
  shows "reachable d c \<Longrightarrow> seating_arrangement c ! item = UNASSIGNED d \<Longrightarrow>
         set keys \<subseteq> extant_tables c \<Longrightarrow>
         foldl (gibbs_try_table d prm item ss fe ph) (Inr c) keys = Inr c' \<Longrightarrow>
         reachable d c' \<and> seating_arrangement c' = seating_arrangement c \<and>
         extant_tables c' = extant_tables c \<and>
         tables_ever_instantiated c' = tables_ever_instantiated c"
proof (induction keys arbitrary: c)
  case Nil
  then show ?case by simp
next
  case (Cons t keys)
  let ?r = "gibbs_try_table d prm item ss fe ph (Inr c) t"
  from Cons.prems(4) obtain c1 where c1: "?r = Inr c1"
    by (cases ?r) (simp_all add: foldl_absorb)
  from Cons.prems(3) have t: "t \<in> extant_tables c" by simp
  note S = gibbs_try_table_step [OF wf Cons.prems(1) item Cons.prems(2) t c1]
  from S Cons.prems have "reachable d c1" "seating_arrangement c1 ! item = UNASSIGNED d"
    "set keys \<subseteq> extant_tables c1"
    "foldl (gibbs_try_table d prm item ss fe ph) (Inr c1) keys = Inr c'"
    using c1 by simp_all
  from Cons.IH [OF this] S show ?case by simp
qed

lemma reach_counter:
  assumes "reachable d c"
  shows "reachable d (c\<lparr>tables_ever_instantiated := n\<rparr>)"
proof -
  have "c\<lparr>tables_ever_instantiated := n\<rparr> =
        c\<lparr>log_alpha_prime := log_alpha_prime c, log_gamma := log_gamma c,
          tables_ever_instantiated := n, pRT_samples := pRT_samples c,
          skill_label_samples := skill_label_samples c, train_ll_samples := train_ll_samples c\<rparr>"
    by simp
  then show ?thesis
    using reach_other [OF assms, where a = "log_alpha_prime c" and g = "log_gamma c" and n = n
        and ps = "pRT_samples c" and ls = "skill_label_samples c" and ts = "train_ll_samples c"]
    by simp
qed

lemma gibbs_reachable:
  assumes wf: "wf_inputs d" and r: "reachable d c" and item: "item < num_items d"
    and seated: "seating_arrangement c ! item \<noteq> UNASSIGNED d"
    and fresh: "fresh_counter d c"
    and res: "gibbs_resample_skill d prm ps ev item c = Inr c'"
  shows "reachable d c' \<and> fresh_counter d c' \<and>
         seating_arrangement c' ! item \<noteq> UNASSIGNED d \<and>
         (\<forall>j<num_items d. j \<noteq> item \<longrightarrow> seating_arrangement c' ! j = seating_arrangement c ! j)"
proof -
  note inv = reachable_inv [OF wf r]
  note I = ledger_invD [OF inv]
  let ?sa = "seating_arrangement c"
  let ?U = "UNASSIGNED d"
  let ?cur = "?sa ! item"
  have il: "item < length ?sa" using item I(1) by simp
  from res il item obtain deleted c1 ph c2 where
    rm: "remove_item_from_table d item ?cur c = Inr (deleted, c1)"
    and loop: "foldl (gibbs_try_table d prm item (students_who_studied d item)
                 (all_first_encounters d item) ph) (Inr c1)
                 (sorted_list_of_set (extant_tables c1)) = Inr c2"
    and fin: "(if ev \<ge> length (sorted_list_of_set (extant_tables c1)) then
                 (case assign_item_to_table d prm item (tables_ever_instantiated c2) True c2 of
                    Inl e \<Rightarrow> Inl e
                  | Inr c3 \<Rightarrow>
                      if \<not> ev - length (sorted_list_of_set (extant_tables c1)) < length ps
                      then Inl OutOfRange
                      else Inr (c3\<lparr>tables_ever_instantiated := tables_ever_instantiated c2 + 1,
                                   parameters := (parameters c3)
                                     (seating_arrangement c3 ! item \<mapsto>
                                      ps ! (ev - length (sorted_list_of_set (extant_tables c1))))\<rparr>))
               else assign_item_to_table d prm item
                      (sorted_list_of_set (extant_tables c1) ! ev) False c2) = Inr c'"
    by (auto simp: gibbs_resample_skill_def Let_def split: sum.splits if_splits)
  have r1: "reachable d c1" by (rule reach_remove [OF r item refl seated rm])
  from remove_inv [OF wf inv item refl seated] rm
  have c1: "seating_arrangement c1 = ?sa[item := ?U]" "extant_tables c1 \<subseteq> extant_tables c"
    by (auto split: if_splits)
  note I1 = ledger_invD [OF reachable_inv [OF wf r1]]
  have seat1: "seating_arrangement c1 ! item = ?U" using c1(1) il by simp
  have keys: "set (sorted_list_of_set (extant_tables c1)) = extant_tables c1"
    using I1(2) by simp
  from gibbs_loop [OF wf item r1 seat1 _ loop] keys
  have c2: "reachable d c2" "seating_arrangement c2 = seating_arrangement c1"
    "extant_tables c2 = extant_tables c1"
    "tables_ever_instantiated c2 = tables_ever_instantiated c1" by simp_all
  have cnt: "tables_ever_instantiated c2 = tables_ever_instantiated c"
    using c2(4) remove_counter [OF rm] by simp
  from fresh have fr: "?U < tables_ever_instantiated c"
    "\<And>t. t \<in> extant_tables c \<Longrightarrow> t < tables_ever_instantiated c"
    by (simp_all add: fresh_counter_def)
  have seat2: "seating_arrangement c2 ! item = ?U" using c2(2) seat1 by simp
  have il2: "item < length (seating_arrangement c2)" using c2(2) c1(1) il by simp
  note inv2 = reachable_inv [OF wf c2(1)]
  have others: "(sa2[item := t]) ! j = ?sa ! j"
    if "sa2 = seating_arrangement c2" "j \<noteq> item" for sa2 t j
    using that c2(2) c1(1) by simp
  show ?thesis
  proof (cases "ev \<ge> length (sorted_list_of_set (extant_tables c1))")
    case True
    let ?t = "tables_ever_instantiated c2"
    from True fin obtain c3 where
      a: "assign_item_to_table d prm item ?t True c2 = Inr c3"
      and c': "c' = c3\<lparr>tables_ever_instantiated := ?t + 1,
                       parameters := (parameters c3)
                         (seating_arrangement c3 ! item \<mapsto>
                          ps ! (ev - length (sorted_list_of_set (extant_tables c1))))\<rparr>"
      by (auto split: sum.splits if_splits)
    have tn: "?t \<notin> extant_tables c2" using fr(2) [of ?t] c2(3) c1(2) cnt by auto
    have tU: "?t \<noteq> ?U" using fr(1) cnt by simp
    have r3: "reachable d c3" by (rule reach_assign_new [OF c2(1) item seat2 tn tU a])
    from assign_new_inv [OF wf inv2 item seat2 tn tU, of prm] a
    have c3: "seating_arrangement c3 = (seating_arrangement c2)[item := ?t]"
      "extant_tables c3 = insert ?t (extant_tables c2)" by auto
    have s3: "seating_arrangement c3 ! item = ?t" using c3(1) il2 by simp
    then have mem: "seating_arrangement c3 ! item \<in> extant_tables c3" using c3(2) by simp
    let ?P = "(parameters c3)(seating_arrangement c3 ! item \<mapsto>
                ps ! (ev - length (sorted_list_of_set (extant_tables c1))))"
    have "reachable d (c3\<lparr>parameters := ?P\<rparr>)" by (rule reach_params [OF r3 mem])
    then have "reachable d (c3\<lparr>parameters := ?P\<rparr>\<lparr>tables_ever_instantiated := ?t + 1\<rparr>)"
      by (rule reach_counter)
    moreover have "c' = c3\<lparr>parameters := ?P\<rparr>\<lparr>tables_ever_instantiated := ?t + 1\<rparr>"
      unfolding c' by simp
    ultimately have "reachable d c'" by simp
    moreover have "fresh_counter d c'"
      unfolding fresh_counter_def c' using c3(2) c2(3) c1(2) fr cnt by (auto simp: less_Suc_eq)
    moreover have "seating_arrangement c' ! item \<noteq> ?U" unfolding c' using s3 tU by simp
    moreover have "seating_arrangement c' ! j = ?sa ! j" if "j \<noteq> item" for j
      unfolding c' using c3(1) others [OF refl that] by simp
    ultimately show ?thesis by blast
  next
    case False
    let ?t = "sorted_list_of_set (extant_tables c1) ! ev"
    from False fin have a: "assign_item_to_table d prm item ?t False c2 = Inr c'" by simp
    from False have "?t \<in> set (sorted_list_of_set (extant_tables c1))" by simp
    with keys c2(3) have t: "?t \<in> extant_tables c2" by simp
    have "reachable d c'" by (rule reach_assign_old [OF c2(1) item seat2 t a])
    moreover from assign_old_inv [OF wf inv2 item seat2 t, of prm] a
    have c4: "seating_arrangement c' = (seating_arrangement c2)[item := ?t]"
      "extant_tables c' = extant_tables c2" by auto
    moreover have "fresh_counter d c'"
      unfolding fresh_counter_def using c4(2) c2(3) c1(2) fr assign_counter [OF a] cnt by auto
    moreover have "?t \<noteq> ?U" using t c2(3) I1(3) by auto
    then have "seating_arrangement c' ! item \<noteq> ?U" using c4(1) il2 by simp
    moreover have "seating_arrangement c' ! j = ?sa ! j" if "j \<noteq> item" for j
      using c4(1) others [OF refl that] by simp
    ultimately show ?thesis by blast
  qed
qed

lemma seat_loop:
  assumes wf: "wf_inputs d" and U: "UNASSIGNED d = 0"
    and lp: "num_items d \<le> length (provided_skill_assignments d)"
  shows "m \<le> num_items d \<Longrightarrow>
    \<exists>seen c. foldl (seat_step d draws) (Inr ({}, init_chain d)) [0..<m] = Inr (seen, c) \<and>
      reachable d c \<and> seen = extant_tables c \<and>
      extant_tables c = (\<lambda>l. 1 + l) ` set (take m (provided_skill_assignments d)) \<and>
      length (seating_arrangement c) = num_items d \<and>
      (\<forall>i<m. seating_arrangement c ! i = 1 + provided_skill_assignments d ! i) \<and>
      (\<forall>i. m \<le> i \<and> i < num_items d \<longrightarrow> seating_arrangement c ! i = UNASSIGNED d) \<and>
      tables_ever_instantiated c = UNASSIGNED d + 1"
proof (induction m)
  case 0
  have "extant_tables (init_chain d) = {}" "length (seating_arrangement (init_chain d)) = num_items d"
    "\<forall>i<num_items d. seating_arrangement (init_chain d) ! i = UNASSIGNED d"
    "tables_ever_instantiated (init_chain d) = UNASSIGNED d + 1"
    by (simp_all add: init_chain_def empty_chain_def)
  with reach_init [of d] show ?case by simp
next
  case (Suc m)
  then obtain seen c where
    st: "foldl (seat_step d draws) (Inr ({}, init_chain d)) [0..<m] = Inr (seen, c)"
    and r: "reachable d c" and seen: "seen = extant_tables c"
    and ex: "extant_tables c = (\<lambda>l. 1 + l) ` set (take m (provided_skill_assignments d))"
    and len: "length (seating_arrangement c) = num_items d"
    and std: "\<And>i. i < m \<Longrightarrow> seating_arrangement c ! i = 1 + provided_skill_assignments d ! i"
    and todo: "\<And>i. m \<le> i \<Longrightarrow> i < num_items d \<Longrightarrow> seating_arrangement c ! i = UNASSIGNED d"
    and cnt: "tables_ever_instantiated c = UNASSIGNED d + 1"
    by auto
  from Suc.prems have m: "m < num_items d" by simp
  with lp have mp: "m < length (provided_skill_assignments d)" by simp
  let ?t = "1 + provided_skill_assignments d ! m"
  note inv = reachable_inv [OF wf r]
  have seat: "seating_arrangement c ! m = UNASSIGNED d" using todo [of m] m by simp
  have tU: "?t \<noteq> UNASSIGNED d" using U by simp
  have take: "set (take (Suc m) (provided_skill_assignments d)) =
              insert (provided_skill_assignments d ! m) (set (take m (provided_skill_assignments d)))"
    using mp by (simp add: take_Suc_conv_app_nth)
  have "\<exists>c'. assign_item_to_table d (draws m) m ?t (?t \<notin> seen) c = Inr c' \<and> reachable d c' \<and>
          seating_arrangement c' = (seating_arrangement c)[m := ?t] \<and>
          extant_tables c' = insert ?t (extant_tables c) \<and>
          tables_ever_instantiated c' = tables_ever_instantiated c"
  proof (cases "?t \<in> seen")
    case True
    with seen have t: "?t \<in> extant_tables c" by simp
    from assign_old_inv [OF wf inv m seat t, of "draws m"] obtain c' where
      c': "assign_item_to_table d (draws m) m ?t False c = Inr c'"
        "seating_arrangement c' = (seating_arrangement c)[m := ?t]"
        "extant_tables c' = extant_tables c" by blast
    from reach_assign_old [OF r m seat t c'(1)] c' assign_counter [OF c'(1)] True t
    show ?thesis by (auto simp: insert_absorb)
  next
    case False
    with seen have t: "?t \<notin> extant_tables c" by simp
    from assign_new_inv [OF wf inv m seat t tU, of "draws m"] obtain c' where
      c': "assign_item_to_table d (draws m) m ?t True c = Inr c'"
        "seating_arrangement c' = (seating_arrangement c)[m := ?t]"
        "extant_tables c' = insert ?t (extant_tables c)" by blast
    from reach_assign_new [OF r m seat t tU c'(1)] c' assign_counter [OF c'(1)] False
    show ?thesis by auto
  qed
  then obtain c' where
    c': "assign_item_to_table d (draws m) m ?t (?t \<notin> seen) c = Inr c'" "reachable d c'"
      "seating_arrangement c' = (seating_arrangement c)[m := ?t]"
      "extant_tables c' = insert ?t (extant_tables c)"
      "tables_ever_instantiated c' = tables_ever_instantiated c" by blast
  have step: "foldl (seat_step d draws) (Inr ({}, init_chain d)) [0..<Suc m] =
              Inr (insert ?t seen, c')"
    using st mp c'(1) by (simp add: seat_step_def Let_def)
  have "\<forall>i<Suc m. seating_arrangement c' ! i = 1 + provided_skill_assignments d ! i"
    using c'(3) std len m by (auto simp: less_Suc_eq nth_list_update)
  moreover have "\<forall>i. Suc m \<le> i \<and> i < num_items d \<longrightarrow> seating_arrangement c' ! i = UNASSIGNED d"
    using c'(3) todo by auto
  moreover have "extant_tables c' = (\<lambda>l. 1 + l) ` set (take (Suc m) (provided_skill_assignments d))"
    using c'(4) ex take by simp
  ultimately show ?case
    using step c'(2,4,5) seen len c'(3) cnt by (intro exI [of _ "insert ?t seen"] exI [of _ c']) simp
qed

lemma initial_seating_reachable:
  assumes wf: "wf_inputs d" and U: "UNASSIGNED d = 0"
    and lp: "length (provided_skill_assignments d) = num_items d"
  shows "\<exists>c. initial_seating d draws = Inr c \<and> reachable d c \<and> fresh_counter d c \<and>
           (\<forall>i<num_items d. seating_arrangement c ! i = 1 + provided_skill_assignments d ! i)"
proof -
  from lp have "num_items d \<le> length (provided_skill_assignments d)" by simp
  from seat_loop [OF wf U this order_refl, of draws] obtain seen c where
    st: "foldl (seat_step d draws) (Inr ({}, init_chain d)) [0..<num_items d] = Inr (seen, c)"
    and r: "reachable d c"
    and ex: "extant_tables c = (\<lambda>l. 1 + l) ` set (take (num_items d) (provided_skill_assignments d))"
    and std: "\<forall>i<num_items d. seating_arrangement c ! i = 1 + provided_skill_assignments d ! i"
    and cnt: "tables_ever_instantiated c = UNASSIGNED d + 1"
    by blast
  let ?n = "tables_ever_instantiated c + (num_expert_provided_skills d + 1)"
  let ?c = "c\<lparr>tables_ever_instantiated := ?n\<rparr>"
  have res: "initial_seating d draws = Inr ?c" using st by (simp add: initial_seating_def)
  have r': "reachable d ?c" by (rule reach_counter [OF r])
  have "t < ?n" if "t \<in> extant_tables c" for t
  proof -
    from that ex lp obtain l where l: "l \<in> set (provided_skill_assignments d)" "t = 1 + l" by auto
    then have "l \<le> Max (set (provided_skill_assignments d))" by simp
    with l(2) show ?thesis by (simp add: num_expert_provided_skills_def)
  qed
  then have "fresh_counter d ?c" using U cnt by (simp add: fresh_counter_def)
  with res r' std show ?thesis by (intro exI [of _ ?c]) simp
qed

subsection \<open>The most likely sample\<close>

lemma best_loop_Suc:
  "best_loop ll (Suc n) = best_step ll (best_loop ll n) n"
  by (simp add: best_loop_def)

lemma best_loop_spec:
  "0 < n \<Longrightarrow> n \<le> length ll \<Longrightarrow>
     snd (best_loop ll n) < n \<and>
     fst (best_loop ll n) = ll ! snd (best_loop ll n) \<and>
     (\<forall>j<n. ll ! j \<le> ll ! snd (best_loop ll n)) \<and>
     (\<forall>j<snd (best_loop ll n). ll ! j < ll ! snd (best_loop ll n))"
proof (induction n)
  case 0
  then show ?case by simp
next
  case (Suc n)
  show ?case
  proof (cases "n = 0")
    case True
    then show ?thesis
      by (simp add: best_loop_Suc best_step_def best_loop_def)
  next
    case False
    with Suc have IH:
      "snd (best_loop ll n) < n"
      "fst (best_loop ll n) = ll ! snd (best_loop ll n)"
      "\<And>j. j < n \<Longrightarrow> ll ! j \<le> ll ! snd (best_loop ll n)"
      "\<And>j. j < snd (best_loop ll n) \<Longrightarrow> ll ! j < ll ! snd (best_loop ll n)"
      by auto
    show ?thesis
    proof (cases "ll ! n > fst (best_loop ll n)")
      case True
      then have eq: "best_loop ll (Suc n) = (ll ! n, n)"
        by (simp add: best_loop_Suc best_step_def)
      have lt: "ll ! j < ll ! n" if "j < n" for j
        using IH(3) [OF that] True IH(2) by simp
      show ?thesis
        unfolding eq using lt by (auto simp: less_Suc_eq intro: less_imp_le)
    next
      case no: False
      with False have eq: "best_loop ll (Suc n) = best_loop ll n"
        by (simp add: best_loop_Suc best_step_def)
      have "ll ! j \<le> ll ! snd (best_loop ll n)" if "j < Suc n" for j
        using that IH(3) [of j] no IH(2) by (cases "j = n") auto
      then show ?thesis
        unfolding eq using IH(1,2,4) by auto
    qed
  qed
qed

text \<open>
  C7. For a non-empty sequence of recorded samples (one training log-likelihood per
  stored partition), \<open>get_most_likely_skill_labels\<close> returns the stored partition of
  the sample whose recorded training log-likelihood is the highest (the first one, when
  several share the maximum). The result depends on the recorded samples only: on any
  chain state \<open>c'\<close> holding the same samples, whatever else differs, it is the same.
\<close>

theorem get_most_likely_skill_labels_max:
  assumes "skill_label_samples c \<noteq> []"
    and "length (train_ll_samples c) = length (skill_label_samples c)"
  shows "\<exists>i<length (skill_label_samples c).
           get_most_likely_skill_labels c = Inr (skill_label_samples c ! i) \<and>
           (\<forall>j<length (skill_label_samples c). train_ll_samples c ! j \<le> train_ll_samples c ! i) \<and>
           (\<forall>j<i. train_ll_samples c ! j < train_ll_samples c ! i) \<and>
           (\<forall>c'. skill_label_samples c' = skill_label_samples c \<and>
                 train_ll_samples c' = train_ll_samples c \<longrightarrow>
                 get_most_likely_skill_labels c' = get_most_likely_skill_labels c)"
proof -
  let ?ll = "train_ll_samples c"
  let ?i = "snd (best_loop ?ll (length ?ll))"
  from assms have "0 < length ?ll" by simp
  note spec = best_loop_spec [OF this order_refl]
  have i1: "?i < length ?ll" using spec by (rule conjunct1)
  have i2: "\<forall>j<length ?ll. ?ll ! j \<le> ?ll ! ?i"
    using spec by (elim conjE)
  have i3: "\<forall>j<?i. ?ll ! j < ?ll ! ?i"
    using spec by (elim conjE)
  have "\<not> ?i \<ge> length (skill_label_samples c)"
    using i1 assms(2) by simp
  then have res: "get_most_likely_skill_labels c = Inr (skill_label_samples c ! ?i)"
    using assms by (simp add: get_most_likely_skill_labels_def Let_def)
  have same: "get_most_likely_skill_labels c' = get_most_likely_skill_labels c"
    if "skill_label_samples c' = skill_label_samples c \<and> train_ll_samples c' = train_ll_samples c"
    for c'
  proof -
    from that have a: "skill_label_samples c' = skill_label_samples c"
      and b: "train_ll_samples c' = train_ll_samples c" by blast+
    show ?thesis unfolding get_most_likely_skill_labels_def a b ..
  qed
  show ?thesis
  proof (intro exI conjI)
    show "?i < length (skill_label_samples c)" using i1 assms(2) by simp
    show "get_most_likely_skill_labels c = Inr (skill_label_samples c ! ?i)" by (rule res)
    show "\<forall>j<length (skill_label_samples c). ?ll ! j \<le> ?ll ! ?i" using i2 assms(2) by simp
    show "\<forall>j<?i. ?ll ! j < ?ll ! ?i" by (rule i3)
    show "\<forall>c'. skill_label_samples c' = skill_label_samples c \<and>
                 train_ll_samples c' = train_ll_samples c \<longrightarrow>
                 get_most_likely_skill_labels c' = get_most_likely_skill_labels c"
      using same by blast
  qed
qed

theorem get_most_likely_skill_labels_max_witness:
  "get_most_likely_skill_labels
     (empty_chain\<lparr>skill_label_samples := [[0, 0], [0, 1], [1, 0]],
                  train_ll_samples := [-5, -2, -2]\<rparr>) = Inr [0, 1]"
proof -
  let ?c = "empty_chain\<lparr>skill_label_samples := [[0, 0], [0, 1], [1, 0]],
                  train_ll_samples := [-5, -2, -2]\<rparr>"
  have h1: "skill_label_samples ?c \<noteq> []"
    and h2: "length (train_ll_samples ?c) = length (skill_label_samples ?c)"
    by simp_all
  from get_most_likely_skill_labels_max [OF h1 h2]
  obtain i where i: "i < length (skill_label_samples ?c)"
    "get_most_likely_skill_labels ?c = Inr (skill_label_samples ?c ! i)"
    "\<forall>j<length (skill_label_samples ?c). train_ll_samples ?c ! j \<le> train_ll_samples ?c ! i"
    "\<forall>j<i. train_ll_samples ?c ! j < train_ll_samples ?c ! i"
    by blast
  from i(1) have "i < 3" by simp
  then have cases: "i = 0 \<or> i = 1 \<or> i = 2" by arith
  from i(3) [THEN spec, of 1] have "train_ll_samples ?c ! 1 \<le> train_ll_samples ?c ! i" by simp
  then have "i \<noteq> 0" by (intro notI) simp
  moreover have "i \<noteq> 2"
  proof
    assume "i = 2"
    with i(4) [THEN spec, of 1] have "train_ll_samples ?c ! 1 < train_ll_samples ?c ! 2" by simp
    then show False by simp
  qed
  ultimately have "i = 1" using cases by blast
  with i(2) show ?thesis by simp
qed

end
